theory Spec2Isabelle
  imports Complex_Main
begin

section \<open>Semantic pointer algebra (scripts/semantic\_algebra.py)\<close>

text \<open>
  Vectors are numpy arrays of floats in the source. In the algebra, the vocabulary, the
  encoder and the weight generator they are modelled as lists of exact reals: rounding,
  overflow and underflow are not modelled there, every comparison and every operation is
  the exact one. A matrix is the list of its rows. The state of \<open>CleanupMemory.cleanup\<close>
  has its own type of values, with the infinities, NaN and the range of the doubles.
\<close>

type_synonym vec = "real list"
type_synonym matrix = "real list list"

text \<open>
  The source raises \<open>ValueError\<close> with different messages and \<open>KeyError\<close>; each
  constructor stands for one kind of raise.
\<close>

datatype error =
    DimensionMismatch     \<comment> \<open>ValueError: a length differs from the expected one\<close>
  | InvalidFftSize        \<comment> \<open>ValueError of numpy.fft: zero data points\<close>
  | NoVectors             \<comment> \<open>ValueError: "Must provide at least one vector"\<close>
  | AlreadyExists         \<comment> \<open>ValueError: "Semantic pointer ... already exists"\<close>
  | NotFound              \<comment> \<open>KeyError: name not in the vocabulary\<close>
  | InvalidConfiguration  \<comment> \<open>ValueError of a constructor\<close>
  | IndexOutOfRange       \<comment> \<open>IndexError: element 0 of an empty array\<close>

subsection \<open>numpy primitives\<close>

definition dot :: "vec \<Rightarrow> vec \<Rightarrow> real" where
  "dot a b = sum_list (map2 (*) a b)"

definition linalg_norm :: "vec \<Rightarrow> real" where
  "linalg_norm v = sqrt (dot v v)"

definition floor_eps :: real where
  "floor_eps = 1 / 10 ^ 10"

text \<open>
  The block repeated after every operation:
  \<^verbatim>\<open>norm = np.linalg.norm(result); if norm > 1e-10: result = result / norm\<close>
\<close>

definition normalize :: "vec \<Rightarrow> vec" where
  "normalize result =
     (let norm = linalg_norm result
      in if norm > floor_eps then map (\<lambda>x. x / norm) result else result)"

definition matvec :: "matrix \<Rightarrow> vec \<Rightarrow> vec" where
  "matvec m x = map (\<lambda>row. dot row x) m"

definition matmul :: "matrix \<Rightarrow> matrix \<Rightarrow> matrix" where
  "matmul a b = map (\<lambda>row. map (\<lambda>col. dot row col) (transpose b)) a"

text \<open>
  \<open>np.fft.rfft\<close> of a real vector of length \<open>n\<close>: the bins \<open>0 .. n div 2\<close> of the
  discrete Fourier transform.
\<close>

definition rfft :: "vec \<Rightarrow> complex list" where
  "rfft a =
     (let n = length a
      in map (\<lambda>k. \<Sum>m<n. of_real (a ! m) * cis (- (2 * pi * real k * real m / real n)))
           [0..<n div 2 + 1])"

text \<open>
  \<open>np.fft.irfft(X, n)\<close>: the real inverse transform. It reads the real part of bin 0,
  the bins \<open>1 .. (n - 1) div 2\<close> together with their mirrored conjugates, the real part
  of bin \<open>n div 2\<close> when \<open>n\<close> is even, and divides by \<open>n\<close>.
\<close>

definition irfft :: "complex list \<Rightarrow> nat \<Rightarrow> vec" where
  "irfft X n =
     map (\<lambda>j. (Re (X ! 0)
               + 2 * (\<Sum>k = 1..(n - 1) div 2.
                        Re (X ! k * cis (2 * pi * real k * real j / real n)))
               + (if even n then Re (X ! (n div 2)) * (- 1) ^ j else 0)) / real n)
       [0..<n]"

subsection \<open>Core mathematical operations\<close>

definition circular_convolution :: "vec \<Rightarrow> vec \<Rightarrow> error + vec" where
  "circular_convolution a b =
     (if length a \<noteq> length b then Inl DimensionMismatch
      else if length a = 0 then Inl InvalidFftSize
      else Inr (normalize (irfft (map2 (*) (rfft a) (rfft b)) (length a))))"

definition circular_correlation :: "vec \<Rightarrow> vec \<Rightarrow> error + vec" where
  "circular_correlation c a =
     (if length c \<noteq> length a then Inl DimensionMismatch
      else if length c = 0 then Inl InvalidFftSize
      else Inr (normalize (irfft (map2 (*) (rfft c) (map cnj (rfft a))) (length c))))"

text \<open>\<open>np.sum(vectors, axis=0)\<close>: entry \<open>j\<close> is the sum of the entries \<open>j\<close>.\<close>

definition sum_axis0 :: "vec list \<Rightarrow> vec" where
  "sum_axis0 vectors = map (\<lambda>j. sum_list (map (\<lambda>v. v ! j) vectors)) [0..<length (hd vectors)]"

definition superposition :: "vec list \<Rightarrow> error + vec" where
  "superposition vectors =
     (if length vectors = 0 then Inl NoVectors
      else if \<exists>v \<in> set (tl vectors). length v \<noteq> length (hd vectors) then Inl DimensionMismatch
      else Inr (normalize (sum_axis0 vectors)))"

definition cosine_similarity :: "vec \<Rightarrow> vec \<Rightarrow> error + real" where
  "cosine_similarity a b =
     (if length a \<noteq> length b then Inl DimensionMismatch else Inr (dot a b))"

subsection \<open>SemanticVocabulary\<close>

text \<open>
  \<open>self.vectors\<close> is a Python dict: keys are unique and iterate in insertion order, and
  assigning to a present key keeps its position.
\<close>

record vocabulary =
  voc_dim :: nat
  vectors :: "(string \<times> vec) list"

fun dict_set :: "(string \<times> vec) list \<Rightarrow> string \<Rightarrow> vec \<Rightarrow> (string \<times> vec) list" where
  "dict_set [] k v = [(k, v)]"
| "dict_set ((k', v') # rest) k v =
     (if k' = k then (k, v) # rest else (k', v') # dict_set rest k v)"

definition SemanticVocabulary_init :: "int \<Rightarrow> error + vocabulary" where
  "SemanticVocabulary_init dimensionality =
     (if dimensionality < 2 then Inl InvalidConfiguration
      else Inr \<lparr>voc_dim = nat dimensionality, vectors = []\<rparr>)"

text \<open>
  \<open>np.random.randn(n)\<close>: \<open>n\<close> independent draws from the standard normal distribution.
  The generator is a parameter of the model, a function from the length to the vector
  drawn. The draw whose entries are all zero has probability zero and is not a value of
  the generator (the source would divide it by its zero norm and store NaN entries).
\<close>

typedef randn = "{g :: nat \<Rightarrow> vec. \<forall>n. length (g n) = n \<and> (0 < n \<longrightarrow> linalg_norm (g n) \<noteq> 0)}"
  morphisms draw Abs_randn
proof
  have d: "dot (replicate n 1) (replicate n 1) = real n" for n
    by (induction n) (simp_all add: dot_def)
  show "(\<lambda>n. replicate n 1) \<in> {g. \<forall>n. length (g n) = n \<and> (0 < n \<longrightarrow> linalg_norm (g n) \<noteq> 0)}"
    by (simp add: linalg_norm_def d)
qed

text \<open>
  \<open>add(name, vector)\<close>. With \<open>vector = None\<close> the source draws \<open>np.random.randn(dim)\<close>
  and divides the draw by its norm without the guard of the floor; a supplied vector is
  checked for its length and normalised with the guard.
\<close>

definition add :: "vocabulary \<Rightarrow> string \<Rightarrow> vec option \<Rightarrow> randn \<Rightarrow> error + vocabulary \<times> vec" where
  "add voc name vector rng =
     (if name \<in> fst ` set (vectors voc) then Inl AlreadyExists
      else case vector of
        None \<Rightarrow>
          (let d = draw rng (voc_dim voc);
               v = map (\<lambda>x. x / linalg_norm d) d
           in Inr (voc\<lparr>vectors := dict_set (vectors voc) name v\<rparr>, v))
      | Some vector \<Rightarrow>
          (if length vector \<noteq> voc_dim voc then Inl DimensionMismatch
           else let v = normalize vector
                in Inr (voc\<lparr>vectors := dict_set (vectors voc) name v\<rparr>, v)))"

definition get :: "vocabulary \<Rightarrow> string \<Rightarrow> error + vec" where
  "get voc name = (case map_of (vectors voc) name of None \<Rightarrow> Inl NotFound | Some v \<Rightarrow> Inr v)"

definition bind :: "vocabulary \<Rightarrow> string \<Rightarrow> string \<Rightarrow> string \<Rightarrow> error + vocabulary \<times> vec" where
  "bind voc name_a name_b result_name =
     (case get voc name_a of Inl e \<Rightarrow> Inl e | Inr a \<Rightarrow>
      case get voc name_b of Inl e \<Rightarrow> Inl e | Inr b \<Rightarrow>
      case circular_convolution a b of Inl e \<Rightarrow> Inl e | Inr result \<Rightarrow>
        Inr (voc\<lparr>vectors := dict_set (vectors voc) result_name result\<rparr>, result))"

definition unbind :: "vocabulary \<Rightarrow> string \<Rightarrow> string \<Rightarrow> string \<Rightarrow> error + vocabulary \<times> vec" where
  "unbind voc bound_name key_name result_name =
     (case get voc bound_name of Inl e \<Rightarrow> Inl e | Inr bound \<Rightarrow>
      case get voc key_name of Inl e \<Rightarrow> Inl e | Inr key \<Rightarrow>
      case circular_correlation bound key of Inl e \<Rightarrow> Inl e | Inr result \<Rightarrow>
        Inr (voc\<lparr>vectors := dict_set (vectors voc) result_name result\<rparr>, result))"

text \<open>\<open>[self.get(name) for name in names]\<close>: the first missing name raises.\<close>

fun get_all :: "vocabulary \<Rightarrow> string list \<Rightarrow> error + vec list" where
  "get_all voc [] = Inr []"
| "get_all voc (name # names) =
     (case get voc name of Inl e \<Rightarrow> Inl e | Inr v \<Rightarrow>
      case get_all voc names of Inl e \<Rightarrow> Inl e | Inr vs \<Rightarrow> Inr (v # vs))"

definition superpose :: "vocabulary \<Rightarrow> string list \<Rightarrow> string \<Rightarrow> error + vocabulary \<times> vec" where
  "superpose voc names result_name =
     (case get_all voc names of Inl e \<Rightarrow> Inl e | Inr vs \<Rightarrow>
      case superposition vs of Inl e \<Rightarrow> Inl e | Inr result \<Rightarrow>
        Inr (voc\<lparr>vectors := dict_set (vectors voc) result_name result\<rparr>, result))"

subsection \<open>NeuralEncoder\<close>

text \<open>
  The preferred directions \<open>encoders\<close> (\<open>n_neurons\<close> rows of length \<open>enc_dim\<close>) come
  from numpy's random generator and the cached \<open>decoders\<close> (\<open>enc_dim\<close> rows of length
  \<open>n_neurons\<close>) from its least-squares solver; both are fields whose values are given.
\<close>

record neural_encoder =
  n_neurons :: nat
  enc_dim :: nat
  encoders :: matrix
  decoders :: matrix

definition encode :: "neural_encoder \<Rightarrow> vec \<Rightarrow> real \<Rightarrow> real \<Rightarrow> error + vec" where
  "encode enc semantic_pointer gain bias =
     (if length semantic_pointer \<noteq> enc_dim enc then Inl DimensionMismatch
      else Inr (map (\<lambda>r. max 0 (gain * r + bias)) (matvec (encoders enc) semantic_pointer)))"

definition decode :: "neural_encoder \<Rightarrow> vec \<Rightarrow> error + vec" where
  "decode enc firing_rates =
     (if length firing_rates \<noteq> n_neurons enc then Inl DimensionMismatch
      else Inr (normalize (matvec (decoders enc) firing_rates)))"

subsection \<open>SemanticWeightGenerator\<close>

record weight_generator =
  enc_src :: neural_encoder
  enc_tgt :: neural_encoder

definition SemanticWeightGenerator_init ::
    "neural_encoder \<Rightarrow> neural_encoder \<Rightarrow> error + weight_generator" where
  "SemanticWeightGenerator_init encoder_src encoder_tgt =
     (if enc_dim encoder_src \<noteq> enc_dim encoder_tgt then Inl DimensionMismatch
      else Inr \<lparr>enc_src = encoder_src, enc_tgt = encoder_tgt\<rparr>)"

text \<open>
  \<open>np.roll(vector, i)\<close> on a one-dimensional array: with \<open>shift = i mod n\<close> the last
  \<open>shift\<close> entries move to the front.
\<close>

definition roll :: "vec \<Rightarrow> nat \<Rightarrow> vec" where
  "roll v i =
     (let n = length v
      in if n = 0 then [] else drop (n - i mod n) v @ take (n - i mod n) v)"

definition circular_conv_matrix :: "vec \<Rightarrow> matrix" where
  "circular_conv_matrix v = map (\<lambda>i. roll v i) [0..<length v]"

text \<open>\<open>vector[0]\<close> raises IndexError on an empty array.\<close>

definition circular_corr_matrix :: "vec \<Rightarrow> error + matrix" where
  "circular_corr_matrix v =
     (case v of [] \<Rightarrow> Inl IndexOutOfRange
      | x # xs \<Rightarrow> Inr (circular_conv_matrix (x # rev xs)))"

definition identity_weights :: "weight_generator \<Rightarrow> matrix" where
  "identity_weights gen = matmul (encoders (enc_tgt gen)) (decoders (enc_src gen))"

definition binding_weights :: "weight_generator \<Rightarrow> vec \<Rightarrow> error + matrix" where
  "binding_weights gen bind_with_vector =
     (if length bind_with_vector \<noteq> enc_dim (enc_src gen) then Inl DimensionMismatch
      else Inr (matmul (matmul (encoders (enc_tgt gen)) (circular_conv_matrix bind_with_vector))
                  (decoders (enc_src gen))))"

definition unbinding_weights :: "weight_generator \<Rightarrow> vec \<Rightarrow> error + matrix" where
  "unbinding_weights gen unbind_vector =
     (if length unbind_vector \<noteq> enc_dim (enc_src gen) then Inl DimensionMismatch
      else case circular_corr_matrix unbind_vector of
        Inl e \<Rightarrow> Inl e
      | Inr transform \<Rightarrow>
          Inr (matmul (matmul (encoders (enc_tgt gen)) transform) (decoders (enc_src gen))))"

subsection \<open>Float values: infinities, NaN and the range of the doubles\<close>

text \<open>
  \<open>CleanupMemory.cleanup\<close> divides by a norm without a guard, and numpy then continues
  with infinities and NaN instead of raising. Its state is therefore a list of values of
  \<open>fl\<close>: a real, an infinity or NaN, with the IEEE 754 rules for the infinities and NaN
  (the sign of a zero is not modelled; a zero divisor is a norm here, hence the positive
  zero).
\<close>

datatype fl = Fin real | PInf | MInf | NaN

text \<open>
  The range of the doubles. With rounding to nearest, a result of magnitude at least
  \<open>2^1024 - 2^970\<close> overflows to an infinity and one of magnitude at most \<open>2^-1075\<close>
  underflows to zero. Between the two bounds the model keeps the exact real: the rounding
  of a finite result to the nearest double is not modelled.
\<close>

definition overflow_bound :: real where
  "overflow_bound = 2 ^ 1024 - 2 ^ 970"

definition underflow_bound :: real where
  "underflow_bound = 1 / 2 ^ 1075"

definition finite_result :: "real \<Rightarrow> fl" where
  "finite_result r =
     (if overflow_bound \<le> r then PInf
      else if r \<le> - overflow_bound then MInf
      else if \<bar>r\<bar> \<le> underflow_bound then Fin 0
      else Fin r)"

fun fneg :: "fl \<Rightarrow> fl" where
  "fneg (Fin a) = Fin (- a)"
| "fneg PInf = MInf"
| "fneg MInf = PInf"
| "fneg NaN = NaN"

fun fadd :: "fl \<Rightarrow> fl \<Rightarrow> fl" where
  "fadd (Fin a) (Fin b) = finite_result (a + b)"
| "fadd NaN _ = NaN"
| "fadd _ NaN = NaN"
| "fadd PInf MInf = NaN"
| "fadd MInf PInf = NaN"
| "fadd PInf _ = PInf"
| "fadd _ PInf = PInf"
| "fadd MInf _ = MInf"
| "fadd _ MInf = MInf"

definition fsub :: "fl \<Rightarrow> fl \<Rightarrow> fl" where
  "fsub a b = fadd a (fneg b)"

text \<open>An infinity times a real \<open>s\<close>: NaN for zero, else the infinity with the sign of the product.\<close>

definition scale_inf :: "real \<Rightarrow> fl \<Rightarrow> fl" where
  "scale_inf s x = (if s = 0 then NaN else if s > 0 then x else fneg x)"

fun fmul :: "fl \<Rightarrow> fl \<Rightarrow> fl" where
  "fmul (Fin a) (Fin b) = finite_result (a * b)"
| "fmul NaN _ = NaN"
| "fmul _ NaN = NaN"
| "fmul (Fin a) x = scale_inf a x"
| "fmul x (Fin b) = scale_inf b x"
| "fmul PInf x = x"
| "fmul MInf x = fneg x"

fun fdiv :: "fl \<Rightarrow> fl \<Rightarrow> fl" where
  "fdiv (Fin a) (Fin b) =
     (if b = 0 then (if a = 0 then NaN else if a > 0 then PInf else MInf)
      else finite_result (a / b))"
| "fdiv NaN _ = NaN"
| "fdiv _ NaN = NaN"
| "fdiv (Fin a) _ = Fin 0"
| "fdiv x (Fin b) = (if b < 0 then fneg x else x)"
| "fdiv _ _ = NaN"

text \<open>
  The hyperbolic tangent of a double and the square root of a non-negative double lie
  within the range of the doubles.
\<close>

fun ftanh :: "fl \<Rightarrow> fl" where
  "ftanh (Fin a) = Fin (tanh a)"
| "ftanh PInf = Fin 1"
| "ftanh MInf = Fin (- 1)"
| "ftanh NaN = NaN"

fun fsqrt :: "fl \<Rightarrow> fl" where
  "fsqrt (Fin a) = (if a < 0 then NaN else Fin (sqrt a))"
| "fsqrt PInf = PInf"
| "fsqrt MInf = NaN"
| "fsqrt NaN = NaN"

text \<open>Comparisons with a real constant; every comparison with NaN is false.\<close>

fun fgt :: "fl \<Rightarrow> real \<Rightarrow> bool" where
  "fgt (Fin a) c = (a > c)"
| "fgt PInf c = True"
| "fgt MInf c = False"
| "fgt NaN c = False"

fun flt :: "fl \<Rightarrow> real \<Rightarrow> bool" where
  "flt (Fin a) c = (a < c)"
| "flt PInf c = False"
| "flt MInf c = True"
| "flt NaN c = False"

definition fdot :: "fl list \<Rightarrow> fl list \<Rightarrow> fl" where
  "fdot a b = foldr fadd (map2 fmul a b) (Fin 0)"

definition fnorm :: "fl list \<Rightarrow> fl" where
  "fnorm v = fsqrt (fdot v v)"

definition fmatvec :: "matrix \<Rightarrow> fl list \<Rightarrow> fl list" where
  "fmatvec m x = map (\<lambda>row. fdot (map Fin row) x) m"

subsection \<open>CleanupMemory\<close>

record cleanup_memory =
  cm_vocab :: vocabulary
  cm_dim :: nat
  threshold :: real
  weights :: matrix

definition outer :: "vec \<Rightarrow> vec \<Rightarrow> matrix" where
  "outer v w = map (\<lambda>x. map (\<lambda>y. x * y) w) v"

definition fill_diagonal :: "matrix \<Rightarrow> real \<Rightarrow> matrix" where
  "fill_diagonal m c = map (\<lambda>(i, row). row[i := c]) (enumerate 0 m)"

text \<open>\<open>W += np.outer(v, v)\<close> for every entry in iteration order, then the diagonal is zeroed.
  The vocabulary's vectors all have length \<open>voc_dim\<close>, so the shapes agree.\<close>

definition compute_hopfield_weights :: "vocabulary \<Rightarrow> matrix" where
  "compute_hopfield_weights voc =
     fill_diagonal
       (foldl (\<lambda>W (name, v). map2 (map2 (+)) W (outer v v))
          (replicate (voc_dim voc) (replicate (voc_dim voc) 0)) (vectors voc))
       0"

definition CleanupMemory_init :: "vocabulary \<Rightarrow> real \<Rightarrow> error + cleanup_memory" where
  "CleanupMemory_init voc thr =
     (if length (vectors voc) = 0 then Inl InvalidConfiguration
      else if thr \<le> 0 then Inl InvalidConfiguration
      else Inr \<lparr>cm_vocab = voc, cm_dim = voc_dim voc, threshold = thr,
                weights = compute_hopfield_weights voc\<rparr>)"

text \<open>
  The value returned by \<open>cleanup\<close>: the vector alone, or with \<open>return_trajectory\<close> the
  triple of vector, trajectory and iteration count.
\<close>

datatype cleanup_result = Vector "fl list" | WithTrajectory "fl list" "fl list list" int

text \<open>One pass of the body of the settling loop: the next state.\<close>

definition settle_step :: "cleanup_memory \<Rightarrow> fl list \<Rightarrow> fl list \<Rightarrow> fl list" where
  "settle_step cm noisy_vector x =
     (let x_new = map ftanh (fmatvec (weights cm) x);
          norm = fnorm x_new
      in if fgt norm floor_eps then map (\<lambda>v. fdiv v norm) x_new
         else map (\<lambda>v. fdiv v (fnorm noisy_vector)) noisy_vector)"

text \<open>
  The loop \<open>for iteration in range(max_iterations)\<close>, over the iterations still to run;
  \<open>x\<close> and \<open>trajectory\<close> are the loop's variables.
\<close>

fun settle :: "cleanup_memory \<Rightarrow> fl list \<Rightarrow> bool \<Rightarrow> int \<Rightarrow> nat list
                 \<Rightarrow> fl list \<Rightarrow> fl list list \<Rightarrow> cleanup_result" where
  "settle cm noisy_vector return_trajectory max_iterations [] x trajectory =
     (if return_trajectory then WithTrajectory x trajectory max_iterations else Vector x)"
| "settle cm noisy_vector return_trajectory max_iterations (iteration # rest) x trajectory =
     (let x_new = settle_step cm noisy_vector x;
          trajectory = (if return_trajectory then trajectory @ [x_new] else trajectory);
          change = fnorm (map2 fsub x_new x)
      in if flt change (threshold cm)
         then (if return_trajectory then WithTrajectory x_new trajectory (int iteration + 1)
               else Vector x_new)
         else settle cm noisy_vector return_trajectory max_iterations rest x_new trajectory)"

definition cleanup :: "cleanup_memory \<Rightarrow> fl list \<Rightarrow> int \<Rightarrow> bool \<Rightarrow> error + cleanup_result" where
  "cleanup cm noisy_vector max_iterations return_trajectory =
     (if length noisy_vector \<noteq> cm_dim cm then Inl DimensionMismatch
      else Inr (settle cm noisy_vector return_trajectory max_iterations
                  [0..<nat max_iterations] noisy_vector
                  (if return_trajectory then [noisy_vector] else [])))"

text \<open>
  The scan of \<open>find_nearest_match\<close>; \<open>best_name\<close> starts as \<open>None\<close> and
  \<open>best_similarity\<close> as \<open>-1.0\<close>.
\<close>

fun nearest_scan :: "vec \<Rightarrow> (string \<times> vec) list \<Rightarrow> string option \<times> real
                       \<Rightarrow> error + string option \<times> real" where
  "nearest_scan vector [] best = Inr best"
| "nearest_scan vector ((name, vocab_vec) # rest) (best_name, best_similarity) =
     (case cosine_similarity vector vocab_vec of
        Inl e \<Rightarrow> Inl e
      | Inr similarity \<Rightarrow>
          if similarity > best_similarity
          then nearest_scan vector rest (Some name, similarity)
          else nearest_scan vector rest (best_name, best_similarity))"

definition find_nearest_match :: "cleanup_memory \<Rightarrow> vec \<Rightarrow> error + string option \<times> real" where
  "find_nearest_match cm vector =
     (if length vector \<noteq> cm_dim cm then Inl DimensionMismatch
      else nearest_scan vector (vectors (cm_vocab cm)) (None, - 1))"

subsection \<open>Derived notions and concrete inputs\<close>

text \<open>
  \<open>np.linalg.norm(trajectory[-1] - trajectory[-2])\<close>: the distance between the last two
  points of a trajectory.
\<close>

definition last_change :: "fl list list \<Rightarrow> fl" where
  "last_change trajectory =
     fnorm (map2 fsub (last trajectory) (trajectory ! (length trajectory - 2)))"

text \<open>A vocabulary of dimension 2 holding the two unit vectors of the axes.\<close>

definition voc_ab :: vocabulary where
  "voc_ab = \<lparr>voc_dim = 2, vectors = [(''A'', [1, 0]), (''B'', [0, 1])]\<rparr>"

text \<open>
  The cleanup memory that \<open>CleanupMemory(vocab, threshold=0.001)\<close> builds from it: the
  outer products add up to the identity matrix, whose diagonal is then zeroed.
\<close>

definition cm_ab :: cleanup_memory where
  "cm_ab = \<lparr>cm_vocab = voc_ab, cm_dim = 2, threshold = 1 / 1000, weights = [[0, 0], [0, 0]]\<rparr>"

text \<open>A vocabulary with the single entry \<open>A = [1, 0]\<close>, and its cleanup memory.\<close>

definition voc_a :: vocabulary where
  "voc_a = \<lparr>voc_dim = 2, vectors = [(''A'', [1, 0])]\<rparr>"

definition cm_a :: cleanup_memory where
  "cm_a = \<lparr>cm_vocab = voc_a, cm_dim = 2, threshold = 1 / 1000, weights = [[0, 0], [0, 0]]\<rparr>"

text \<open>
  The \<open>n\<close>-th root of unity to an integer power, the kernel of the discrete Fourier
  transform: \<open>unity_root n t = exp (2 \<pi> i t / n)\<close>.
\<close>

definition unity_root :: "nat \<Rightarrow> int \<Rightarrow> complex" where
  "unity_root n t = cis (2 * pi * of_int t / real n)"

text \<open>
  Circular convolution and circular correlation written as sums over the indices: what
  the transforms of \<open>circular_convolution\<close> and \<open>circular_correlation\<close> compute before
  the normalisation.
\<close>

definition cconv :: "vec \<Rightarrow> vec \<Rightarrow> vec" where
  "cconv a b =
     (let n = length a
      in map (\<lambda>j. \<Sum>m<n. a ! m * b ! ((j + n - m) mod n)) [0..<n])"

definition ccorr :: "vec \<Rightarrow> vec \<Rightarrow> vec" where
  "ccorr c a =
     (let n = length c
      in map (\<lambda>j. \<Sum>l<n. c ! ((j + l) mod n) * a ! l) [0..<n])"

text \<open>
  Bin \<open>k\<close> of the discrete Fourier transform of a real vector; with \<open>s = - 1\<close> the
  exponent changes sign, which gives the conjugate bin.
\<close>

definition dft :: "int \<Rightarrow> vec \<Rightarrow> nat \<Rightarrow> complex" where
  "dft s a k = (\<Sum>m<length a. of_real (a ! m) * unity_root (length a) (- (s * int k * int m)))"

text \<open>Two unit vectors of dimension 2 whose circular convolution vanishes.\<close>

definition uv_minus :: vec where
  "uv_minus = [1 / sqrt 2, - (1 / sqrt 2)]"

definition uv_plus :: vec where
  "uv_plus = [1 / sqrt 2, 1 / sqrt 2]"

text \<open>A double whose square is beyond the range of the doubles.\<close>

definition huge :: real where
  "huge = 2 ^ 600"

text \<open>
  Vectors of dimension 50 with two or one non-zero entries, at the indices 0 and 25:
  two unit vectors, and the results of binding them and of unbinding again.
\<close>

definition a50 :: vec where
  "a50 = map (\<lambda>i. if i = 0 then 3 / 5 else if i = 25 then - (4 / 5) else 0) [0..<50]"

definition b50 :: vec where
  "b50 = map (\<lambda>i. if i = 0 then 4 / 5 else if i = 25 then 3 / 5 else 0) [0..<50]"

definition c50 :: vec where
  "c50 = map (\<lambda>i. if i = 25 then - 1 else 0) [0..<50]"

definition r50 :: vec where
  "r50 = map (\<lambda>i. if i = 0 then - (3 / 5) else if i = 25 then - (4 / 5) else 0) [0..<50]"

section \<open>Properties\<close>

lemma CleanupMemory_init_voc_ab: "CleanupMemory_init voc_ab (1 / 1000) = Inr cm_ab"
  by (simp add: CleanupMemory_init_def voc_ab_def cm_ab_def compute_hopfield_weights_def
      outer_def fill_diagonal_def enumerate_eq_zip numeral_2_eq_2)

subsection \<open>Dimension checks\<close>

lemma nearest_scan_mismatch:
  "(nearest_scan v xs best = Inl DimensionMismatch) = (\<exists>p \<in> set xs. length (snd p) \<noteq> length v)"
proof (induction v xs best rule: nearest_scan.induct)
  case (1 vector best)
  then show ?case by simp
next
  case (2 vector name vocab_vec rest best_name best_similarity)
  then show ?case
    by (auto simp: cosine_similarity_def)
qed

text \<open>
  Claim C8. Each public operation on two or more vectors or matrices returns the
  dimension-mismatch error exactly when the lengths it compares disagree:
  the two operands of \<open>circular_convolution\<close>, \<open>circular_correlation\<close> and
  \<open>cosine_similarity\<close>; a later vector against the first one in \<open>superposition\<close>; the
  pointer against the encoder's dimension in \<open>encode\<close> and the rates against the number of
  neurons in \<open>decode\<close>; the input against the memory's dimension in \<open>cleanup\<close> and
  \<open>find_nearest_match\<close> (whose scan also compares the input with every stored vector); the
  two encoders' dimensions in the constructor of the weight generator; the fixed vector
  against the source dimension in \<open>binding_weights\<close> and \<open>unbinding_weights\<close>.
\<close>

theorem dimension_mismatch_rejected:
  "(circular_convolution a b = Inl DimensionMismatch) = (length a \<noteq> length b)
   \<and> (circular_correlation a b = Inl DimensionMismatch) = (length a \<noteq> length b)
   \<and> (superposition vs = Inl DimensionMismatch)
       = (vs \<noteq> [] \<and> (\<exists>v \<in> set (tl vs). length v \<noteq> length (hd vs)))
   \<and> (cosine_similarity a b = Inl DimensionMismatch) = (length a \<noteq> length b)
   \<and> (encode enc a gain bias = Inl DimensionMismatch) = (length a \<noteq> enc_dim enc)
   \<and> (decode enc a = Inl DimensionMismatch) = (length a \<noteq> n_neurons enc)
   \<and> (cleanup cm x maxit rt = Inl DimensionMismatch) = (length x \<noteq> cm_dim cm)
   \<and> (find_nearest_match cm a = Inl DimensionMismatch)
       = ((\<exists>p \<in> set (vectors (cm_vocab cm)). length (snd p) \<noteq> length a) \<or> length a \<noteq> cm_dim cm)
   \<and> (SemanticWeightGenerator_init src tgt = Inl DimensionMismatch) = (enc_dim src \<noteq> enc_dim tgt)
   \<and> (binding_weights gen a = Inl DimensionMismatch) = (length a \<noteq> enc_dim (enc_src gen))
   \<and> (unbinding_weights gen a = Inl DimensionMismatch) = (length a \<noteq> enc_dim (enc_src gen))"
  apply (intro conjI)
  subgoal by (simp add: circular_convolution_def)
  subgoal by (simp add: circular_correlation_def)
  subgoal by (simp add: superposition_def)
  subgoal by (simp add: cosine_similarity_def)
  subgoal by (simp add: encode_def)
  subgoal by (simp add: decode_def)
  subgoal by (simp add: cleanup_def)
  subgoal by (auto simp add: find_nearest_match_def nearest_scan_mismatch)
  subgoal by (simp add: SemanticWeightGenerator_init_def)
  subgoal by (simp add: binding_weights_def)
  subgoal by (simp add: unbinding_weights_def circular_corr_matrix_def split: list.splits)
  done

subsection \<open>The settling loop\<close>

lemma settle_trajectory:
  assumes "its = [k..<m]" and "k \<le> m" and "int m = maxit"
    and "length traj = k + 1" and "last traj = x"
  shows "\<exists>x' traj' n. settle cm noisy True maxit its x traj = WithTrajectory x' traj' n
           \<and> int k \<le> n \<and> n \<le> maxit \<and> int (length traj') = n + 1
           \<and> take (length traj) traj' = traj \<and> last traj' = x'
           \<and> (n < maxit \<longrightarrow> flt (last_change traj') (threshold cm))"
  using assms
proof (induction its arbitrary: k x traj)
  case Nil
  from Nil.prems(1)[symmetric] have "m \<le> k" by auto
  with Nil.prems(2) have "k = m" by simp
  with Nil show ?case by simp
next
  case (Cons i rest)
  from Cons.prems(1)[symmetric] have km: "k < m" and i: "i = k" and rest: "rest = [Suc k..<m]"
    by (auto simp: upt_eq_Cons_conv)
  define x_new where "x_new = settle_step cm noisy x"
  define traj2 where "traj2 = traj @ [x_new]"
  show ?case
  proof (cases "flt (fnorm (map2 fsub x_new x)) (threshold cm)")
    case True
    have "traj \<noteq> []" using Cons.prems(4) by auto
    then have "traj ! k = x"
      using Cons.prems(4,5) by (simp add: last_conv_nth)
    then have lc: "last_change traj2 = fnorm (map2 fsub x_new x)"
      using Cons.prems(4) by (simp add: last_change_def traj2_def nth_append)
    have "settle cm noisy True maxit (i # rest) x traj = WithTrajectory x_new traj2 (int k + 1)"
      using True by (simp add: x_new_def traj2_def i Let_def)
    moreover have "int k + 1 \<le> maxit" using km Cons.prems(3) by linarith
    ultimately show ?thesis
      using Cons.prems(4) True lc by (simp add: traj2_def)
  next
    case False
    have step: "settle cm noisy True maxit (i # rest) x traj
                  = settle cm noisy True maxit rest x_new traj2"
      using False by (simp add: x_new_def traj2_def Let_def)
    have "\<exists>x' traj' n. settle cm noisy True maxit rest x_new traj2 = WithTrajectory x' traj' n
           \<and> int (Suc k) \<le> n \<and> n \<le> maxit \<and> int (length traj') = n + 1
           \<and> take (length traj2) traj' = traj2 \<and> last traj' = x'
           \<and> (n < maxit \<longrightarrow> flt (last_change traj') (threshold cm))"
      by (rule Cons.IH) (use rest km Cons.prems in \<open>auto simp: traj2_def\<close>)
    then obtain x' traj' n where r: "settle cm noisy True maxit rest x_new traj2 = WithTrajectory x' traj' n"
      "int (Suc k) \<le> n" "n \<le> maxit" "int (length traj') = n + 1"
      "take (length traj2) traj' = traj2" "last traj' = x'"
      "n < maxit \<longrightarrow> flt (last_change traj') (threshold cm)" by blast
    have "take (length traj) traj' = traj"
    proof -
      have "take (length traj) (take (length traj2) traj') = take (length traj) traj2"
        using r(5) by simp
      then show ?thesis by (simp add: traj2_def min_def)
    qed
    with r step show ?thesis by auto
  qed
qed

text \<open>
  Claim C4. For an input of the memory's dimension and \<open>max_iterations \<ge> 0\<close>,
  \<open>cleanup\<close> with \<open>return_trajectory=True\<close> returns a vector, a trajectory and a count
  \<open>n\<close> with \<open>0 \<le> n \<le> max_iterations\<close>; the trajectory has \<open>n + 1\<close> points, starts with
  the input and ends with the returned vector; and when \<open>n < max_iterations\<close> the distance
  between its last two points is below the threshold.
\<close>

theorem cleanup_trajectory_report:
  assumes "length noisy = cm_dim cm" and "0 \<le> maxit"
  shows "\<exists>x traj n. cleanup cm noisy maxit True = Inr (WithTrajectory x traj n)
           \<and> 0 \<le> n \<and> n \<le> maxit \<and> int (length traj) = n + 1
           \<and> hd traj = noisy \<and> last traj = x
           \<and> (n < maxit \<longrightarrow> flt (last_change traj) (threshold cm))"
proof -
  have "\<exists>x' traj' n. settle cm noisy True maxit [0..<nat maxit] noisy [noisy] = WithTrajectory x' traj' n
           \<and> int 0 \<le> n \<and> n \<le> maxit \<and> int (length traj') = n + 1
           \<and> take (length [noisy]) traj' = [noisy] \<and> last traj' = x'
           \<and> (n < maxit \<longrightarrow> flt (last_change traj') (threshold cm))"
    by (rule settle_trajectory[where m = "nat maxit"]) (use assms in auto)
  then obtain x' traj' n where r: "settle cm noisy True maxit [0..<nat maxit] noisy [noisy] = WithTrajectory x' traj' n"
      "0 \<le> n" "n \<le> maxit" "int (length traj') = n + 1"
      "take (length [noisy]) traj' = [noisy]" "last traj' = x'"
      "n < maxit \<longrightarrow> flt (last_change traj') (threshold cm)" by auto
  from r(5) have "hd traj' = noisy" by (cases traj') auto
  with r assms show ?thesis by (simp add: cleanup_def)
qed

theorem cleanup_trajectory_report_witness:
  "\<exists>x traj n. cleanup cm_ab [Fin 1, Fin 0] 3 True = Inr (WithTrajectory x traj n)
           \<and> 0 \<le> n \<and> n \<le> 3 \<and> int (length traj) = n + 1
           \<and> hd traj = [Fin 1, Fin 0] \<and> last traj = x
           \<and> (n < 3 \<longrightarrow> flt (last_change traj) (threshold cm_ab))"
proof -
  have "length [Fin 1, Fin 0] = cm_dim cm_ab" by (simp add: cm_ab_def)
  moreover have "(0::int) \<le> 3" by simp
  ultimately show ?thesis by (rule cleanup_trajectory_report)
qed

subsection \<open>Nearest match\<close>

lemma CleanupMemory_init_voc_a: "CleanupMemory_init voc_a (1 / 1000) = Inr cm_a"
  by (simp add: CleanupMemory_init_def voc_a_def cm_a_def compute_hopfield_weights_def
      outer_def fill_diagonal_def enumerate_eq_zip numeral_2_eq_2)

text \<open>
  Claim C5 fails on the code. The scan starts from \<open>best_similarity = -1.0\<close> and replaces
  it only by a strictly greater similarity: for the vocabulary \<open>{A: [1, 0]}\<close> and the unit
  vector \<open>[-1, 0]\<close>, whose similarity with \<open>A\<close> is exactly \<open>-1\<close>, the result is
  \<open>(None, -1.0)\<close>: no name of the vocabulary is returned.
\<close>

theorem find_nearest_match_no_name:
  "find_nearest_match cm_a [- 1, 0] = Inr (None, - 1)"
  by (simp add: find_nearest_match_def cm_a_def voc_a_def cosine_similarity_def dot_def)

subsection \<open>Norms\<close>

lemma dot_self_nonneg: "0 \<le> dot v v"
  by (induction v) (auto simp: dot_def)

lemma linalg_norm_scaled:
  assumes "linalg_norm v \<noteq> 0"
  shows "linalg_norm (map (\<lambda>x. x / linalg_norm v) v) = 1"
proof -
  have d: "dot (map (\<lambda>x. x / c) v) (map (\<lambda>x. x / c) v) = dot v v / (c * c)" for c
    by (induction v) (auto simp: dot_def add_divide_distrib)
  have pos: "0 < dot v v"
    using assms dot_self_nonneg [of v] by (auto simp: linalg_norm_def less_le)
  have "linalg_norm v * linalg_norm v = dot v v"
    using dot_self_nonneg [of v] by (simp add: linalg_norm_def)
  then have "dot (map (\<lambda>x. x / linalg_norm v) v) (map (\<lambda>x. x / linalg_norm v) v) = 1"
    using pos by (simp add: d)
  then show ?thesis by (simp add: linalg_norm_def)
qed

subsection \<open>Cleanup of the zero vector\<close>

lemma finite_result_0 [simp]: "finite_result 0 = Fin 0"
  by (simp add: finite_result_def overflow_bound_def underflow_bound_def)

lemma fdot_zeros: "fdot (map Fin row) (replicate n (Fin 0)) = Fin 0"
proof (induction row arbitrary: n)
  case Nil
  then show ?case by (simp add: fdot_def)
next
  case (Cons x row)
  show ?case
  proof (cases n)
    case 0
    then show ?thesis by (simp add: fdot_def)
  next
    case (Suc m)
    with Cons [of m] show ?thesis by (simp add: fdot_def)
  qed
qed

lemma fnorm_zeros: "fnorm (replicate n (Fin 0)) = Fin 0"
proof -
  have "fdot (replicate n (Fin 0)) (replicate n (Fin 0)) = Fin 0"
    by (induction n) (simp_all add: fdot_def)
  then show ?thesis by (simp add: fnorm_def)
qed

lemma fdot_nans: "fdot (map Fin row) (replicate n NaN) = (if row = [] \<or> n = 0 then Fin 0 else NaN)"
  by (cases row; cases n) (auto simp: fdot_def)

lemma fdot_self_zero_or_nan:
  "\<forall>e \<in> set xs. e = Fin 0 \<or> e = NaN \<Longrightarrow> fdot xs xs = Fin 0 \<or> fdot xs xs = NaN"
proof (induction xs)
  case Nil
  then show ?case by (simp add: fdot_def)
next
  case (Cons x xs)
  then have "fdot xs xs = Fin 0 \<or> fdot xs xs = NaN" by simp
  moreover have "x = Fin 0 \<or> x = NaN" using Cons.prems by simp
  moreover have "fdot (x # xs) (x # xs) = fadd (fmul x x) (fdot xs xs)"
    by (simp add: fdot_def)
  ultimately show ?case by auto
qed

lemma not_fgt_zero_or_nan:
  assumes "\<forall>e \<in> set xs. e = Fin 0 \<or> e = NaN"
  shows "\<not> fgt (fnorm xs) floor_eps"
  using fdot_self_zero_or_nan [OF assms] by (auto simp: fnorm_def floor_eps_def)

lemma settle_step_from_zero:
  "settle_step cm (replicate n (Fin 0)) (replicate n (Fin 0)) = replicate n NaN"
proof -
  have "\<forall>e \<in> set (map ftanh (fmatvec (weights cm) (replicate n (Fin 0)))). e = Fin 0 \<or> e = NaN"
    by (auto simp: fmatvec_def fdot_zeros)
  then have "\<not> fgt (fnorm (map ftanh (fmatvec (weights cm) (replicate n (Fin 0))))) floor_eps"
    by (rule not_fgt_zero_or_nan)
  moreover have "fnorm (replicate n (Fin 0)) = Fin 0"
    by (rule fnorm_zeros)
  ultimately show ?thesis by (simp add: settle_step_def Let_def)
qed

lemma settle_step_from_nan:
  "settle_step cm (replicate n (Fin 0)) (replicate n NaN) = replicate n NaN"
proof -
  have "\<forall>e \<in> set (map ftanh (fmatvec (weights cm) (replicate n NaN))). e = Fin 0 \<or> e = NaN"
    by (auto simp: fmatvec_def fdot_nans)
  then have "\<not> fgt (fnorm (map ftanh (fmatvec (weights cm) (replicate n NaN)))) floor_eps"
    by (rule not_fgt_zero_or_nan)
  moreover have "fnorm (replicate n (Fin 0)) = Fin 0"
    by (rule fnorm_zeros)
  ultimately show ?thesis by (simp add: settle_step_def Let_def)
qed

lemma change_nan: "0 < n \<Longrightarrow> \<not> flt (fnorm (map2 fsub (replicate n NaN) (replicate n e))) c"
  by (cases n) (auto simp: fnorm_def fdot_def fsub_def)

lemma settle_nan:
  assumes "0 < n"
  shows "settle cm (replicate n (Fin 0)) rt maxit its (replicate n NaN) traj
           = (if rt then WithTrajectory (replicate n NaN)
                           (traj @ replicate (length its) (replicate n NaN)) maxit
              else Vector (replicate n NaN))"
proof (induction its arbitrary: traj)
  case Nil
  then show ?case by simp
next
  case (Cons i its)
  show ?case
    using change_nan [OF assms, of NaN "threshold cm"] Cons [of "traj @ [replicate n NaN]"]
      Cons [of traj]
    by (cases rt) (simp_all add: settle_step_from_nan Let_def)
qed

lemma settle_zero_first:
  assumes "0 < n"
  shows "settle cm (replicate n (Fin 0)) rt maxit (i # its) (replicate n (Fin 0)) traj
           = settle cm (replicate n (Fin 0)) rt maxit its (replicate n NaN)
               (if rt then traj @ [replicate n NaN] else traj)"
  using change_nan [OF assms, of "Fin 0" "threshold cm"]
  by (simp add: settle_step_from_zero Let_def)

text \<open>
  Claim C10. The reset branch divides the input by its own norm without a guard. For the
  all-zero input of the memory's dimension that norm is zero, every entry becomes
  \<open>0 / 0 = NaN\<close>, no later iteration leaves that state or converges, and \<open>cleanup\<close>
  with at least one iteration returns the all-NaN vector without raising.
\<close>

theorem cleanup_zero_vector_nan:
  assumes "0 < cm_dim cm" and "1 \<le> maxit"
  shows "fnorm (replicate (cm_dim cm) (Fin 0)) = Fin 0
         \<and> fdiv (Fin 0) (fnorm (replicate (cm_dim cm) (Fin 0))) = NaN
         \<and> cleanup cm (replicate (cm_dim cm) (Fin 0)) maxit False
             = Inr (Vector (replicate (cm_dim cm) NaN))
         \<and> cleanup cm (replicate (cm_dim cm) (Fin 0)) maxit True
             = Inr (WithTrajectory (replicate (cm_dim cm) NaN)
                      (replicate (cm_dim cm) (Fin 0) # replicate (nat maxit) (replicate (cm_dim cm) NaN))
                      maxit)"
proof -
  define n where "n = cm_dim cm"
  define Z where "Z = replicate n (Fin 0)"
  define N where "N = replicate n NaN"
  have pos: "0 < n" using assms(1) by (simp add: n_def)
  have z: "fnorm Z = Fin 0"
    unfolding Z_def by (rule fnorm_zeros)
  from assms(2) obtain k where k: "nat maxit = Suc k" by (cases "nat maxit") auto
  define rest where "rest = [1..<Suc k]"
  have lrest: "length rest = k" by (simp add: rest_def)
  have its: "[0..<nat maxit] = 0 # rest" unfolding k rest_def by (simp add: upt_conv_Cons)
  have run: "settle cm Z rt maxit [0..<nat maxit] Z traj
               = (if rt then WithTrajectory N ((traj @ [N]) @ replicate k N) maxit else Vector N)"
    for rt traj
  proof -
    have "settle cm Z rt maxit [0..<nat maxit] Z traj = settle cm Z rt maxit (0 # rest) Z traj"
      by (simp only: its)
    also have "\<dots> = settle cm Z rt maxit rest N (if rt then traj @ [N] else traj)"
      unfolding Z_def N_def by (rule settle_zero_first [OF pos])
    also have "\<dots> = (if rt then WithTrajectory N
                                 ((if rt then traj @ [N] else traj) @ replicate (length rest) N) maxit
                      else Vector N)"
      unfolding Z_def N_def by (rule settle_nan [OF pos])
    finally show ?thesis by (simp add: lrest)
  qed
  have len: "length Z = cm_dim cm" by (simp add: Z_def n_def)
  have "cleanup cm Z maxit False = Inr (Vector N)"
    using len by (simp add: cleanup_def run)
  moreover have "cleanup cm Z maxit True = Inr (WithTrajectory N (Z # replicate (nat maxit) N) maxit)"
  proof -
    have "cleanup cm Z maxit True = Inr (settle cm Z True maxit [0..<nat maxit] Z [Z])"
      using len by (simp add: cleanup_def)
    also have "\<dots> = Inr (WithTrajectory N (([Z] @ [N]) @ replicate k N) maxit)"
      by (simp only: run if_True)
    also have "([Z] @ [N]) @ replicate k N = Z # replicate (nat maxit) N"
      by (simp add: k)
    finally show ?thesis .
  qed
  ultimately show ?thesis using z unfolding Z_def N_def n_def by simp
qed

theorem cleanup_zero_vector_nan_witness:
  "fdiv (Fin 0) (fnorm [Fin 0, Fin 0]) = NaN
   \<and> cleanup cm_ab [Fin 0, Fin 0] 100 False = Inr (Vector [NaN, NaN])"
proof -
  have d: "cm_dim cm_ab = Suc (Suc 0)" by (simp add: cm_ab_def)
  have "0 < cm_dim cm_ab" by (simp add: d)
  moreover have "(1::int) \<le> 100" by simp
  ultimately show ?thesis
    using cleanup_zero_vector_nan [of cm_ab 100] by (simp add: d)
qed

subsection \<open>The reset after a degenerate iterate\<close>

text \<open>
  Claim C6 fails on the code. In the memory built from \<open>{A: [1, 0], B: [0, 1]}\<close> the
  iterate \<open>tanh(W @ x)\<close> of the all-zero input and of the input \<open>[huge, 0]\<close>, with
  \<open>huge = 2^600\<close>, is \<open>[0, 0]\<close>; its norm \<open>0\<close> is below the floor, and the next state is
  the input divided by its own norm. For the all-zero input that is \<open>0\<close> by \<open>0\<close>: the
  next state is the all-NaN vector, not a renormalised input, and the following iteration
  stays there. For \<open>[huge, 0]\<close> the squared norm overflows, the norm is infinite and the
  next state is the all-zero vector. \<open>cleanup\<close> returns these states; nothing is raised.
\<close>

theorem degenerate_reset_fails:
  "CleanupMemory_init voc_ab (1 / 1000) = Inr cm_ab
   \<and> map ftanh (fmatvec (weights cm_ab) [Fin 0, Fin 0]) = [Fin 0, Fin 0]
   \<and> map ftanh (fmatvec (weights cm_ab) [Fin huge, Fin 0]) = [Fin 0, Fin 0]
   \<and> flt (fnorm [Fin 0, Fin 0]) floor_eps
   \<and> settle_step cm_ab [Fin 0, Fin 0] [Fin 0, Fin 0] = [NaN, NaN]
   \<and> cleanup cm_ab [Fin 0, Fin 0] 2 True
       = Inr (WithTrajectory [NaN, NaN] [[Fin 0, Fin 0], [NaN, NaN], [NaN, NaN]] 2)
   \<and> fnorm [Fin huge, Fin 0] = PInf
   \<and> settle_step cm_ab [Fin huge, Fin 0] [Fin huge, Fin 0] = [Fin 0, Fin 0]
   \<and> cleanup cm_ab [Fin huge, Fin 0] 1 True
       = Inr (WithTrajectory [Fin 0, Fin 0] [[Fin huge, Fin 0], [Fin 0, Fin 0]] 1)"
proof -
  have it: "map ftanh (fmatvec (weights cm_ab) [Fin 0, Fin 0]) = [Fin 0, Fin 0]"
    by (simp add: cm_ab_def fmatvec_def fdot_def)
  have it': "map ftanh (fmatvec (weights cm_ab) [Fin huge, Fin 0]) = [Fin 0, Fin 0]"
    by (simp add: cm_ab_def fmatvec_def fdot_def)
  have below: "flt (fnorm [Fin 0, Fin 0]) floor_eps"
    by (simp add: fnorm_def fdot_def floor_eps_def)
  have s0: "settle_step cm_ab [Fin 0, Fin 0] [Fin 0, Fin 0] = [NaN, NaN]"
    by (simp add: settle_step_def Let_def it) (simp add: fnorm_def fdot_def floor_eps_def)
  have s1: "settle_step cm_ab [Fin 0, Fin 0] [NaN, NaN] = [NaN, NaN]"
    by (simp add: settle_step_def cm_ab_def fmatvec_def fdot_def fnorm_def floor_eps_def)
  have c0: "\<not> flt (fnorm (map2 fsub [NaN, NaN] [Fin 0, Fin 0])) (threshold cm_ab)"
    by (simp add: fnorm_def fdot_def fsub_def)
  have c1: "\<not> flt (fnorm (map2 fsub [NaN, NaN] [NaN, NaN])) (threshold cm_ab)"
    by (simp add: fnorm_def fdot_def fsub_def)
  have its: "[0..<2] = [0, Suc 0]"
    by (simp add: numeral_2_eq_2)
  have len: "length [Fin 0, Fin 0] = cm_dim cm_ab"
    by (simp add: cm_ab_def)
  have loop: "settle cm_ab [Fin 0, Fin 0] True 2 [0, Suc 0] [Fin 0, Fin 0] [[Fin 0, Fin 0]]
       = WithTrajectory [NaN, NaN] [[Fin 0, Fin 0], [NaN, NaN], [NaN, NaN]] 2"
    using c0 c1 by (simp add: s0 s1 Let_def)
  have run: "cleanup cm_ab [Fin 0, Fin 0] 2 True
       = Inr (WithTrajectory [NaN, NaN] [[Fin 0, Fin 0], [NaN, NaN], [NaN, NaN]] 2)"
    using len by (simp add: cleanup_def its loop del: settle.simps)
  have sq: "finite_result (huge * huge) = PInf"
    by (simp add: finite_result_def overflow_bound_def huge_def)
  have neg: "finite_result (- huge) = Fin (- huge)"
    by (simp add: finite_result_def overflow_bound_def underflow_bound_def huge_def)
  have big: "fnorm [Fin huge, Fin 0] = PInf"
    by (simp add: fnorm_def fdot_def sq)
  have t0: "settle_step cm_ab [Fin huge, Fin 0] [Fin huge, Fin 0] = [Fin 0, Fin 0]"
    by (simp add: settle_step_def Let_def it' big) (simp add: fnorm_def fdot_def floor_eps_def)
  have d0: "\<not> flt (fnorm (map2 fsub [Fin 0, Fin 0] [Fin huge, Fin 0])) (threshold cm_ab)"
    by (simp add: fnorm_def fdot_def fsub_def sq neg)
  have len': "length [Fin huge, Fin 0] = cm_dim cm_ab"
    by (simp add: cm_ab_def)
  have loop': "settle cm_ab [Fin huge, Fin 0] True 1 [0] [Fin huge, Fin 0]
                 [[Fin huge, Fin 0]]
       = WithTrajectory [Fin 0, Fin 0] [[Fin huge, Fin 0], [Fin 0, Fin 0]] 1"
    using d0 by (simp add: t0 Let_def)
  have run': "cleanup cm_ab [Fin huge, Fin 0] 1 True
       = Inr (WithTrajectory [Fin 0, Fin 0] [[Fin huge, Fin 0], [Fin 0, Fin 0]] 1)"
    using len' by (simp add: cleanup_def loop' del: settle.simps)
  from CleanupMemory_init_voc_ab it it' below s0 run big t0 run' show ?thesis
    by (intro conjI)
qed

subsection \<open>Cleanup without an iteration\<close>

lemma cleanup_no_iterations:
  assumes "maxit \<le> 0" and "length x = cm_dim cm"
  shows "cleanup cm x maxit rt = Inr (if rt then WithTrajectory x [x] maxit else Vector x)"
  using assms by (simp add: cleanup_def)

text \<open>
  Claim C7 fails on the code. With \<open>max_iterations = 0\<close> the body of the loop never
  runs and \<open>cleanup\<close> returns the copy of its input, with or without the trajectory: in
  the memory built from \<open>{A: [1, 0], B: [0, 1]}\<close> the input \<open>[3, 4]\<close> comes back as it
  is, with norm \<open>5\<close>, although no norm was at or below the floor.
\<close>

theorem cleanup_zero_iterations_returns_input:
  "CleanupMemory_init voc_ab (1 / 1000) = Inr cm_ab
   \<and> cleanup cm_ab [Fin 3, Fin 4] 0 False = Inr (Vector [Fin 3, Fin 4])
   \<and> cleanup cm_ab [Fin 3, Fin 4] 0 True
       = Inr (WithTrajectory [Fin 3, Fin 4] [[Fin 3, Fin 4]] 0)
   \<and> fnorm [Fin 3, Fin 4] = Fin 5"
proof -
  have len: "length [Fin 3, Fin 4] = cm_dim cm_ab" by (simp add: cm_ab_def)
  have "sqrt (5\<^sup>2) = 5" by (simp only: real_sqrt_abs abs_numeral)
  then have n: "fnorm [Fin 3, Fin 4] = Fin 5"
    by (simp add: fnorm_def fdot_def finite_result_def overflow_bound_def underflow_bound_def)
  have a: "cleanup cm_ab [Fin 3, Fin 4] 0 False = Inr (Vector [Fin 3, Fin 4])"
    using cleanup_no_iterations [OF order_refl len, of False] by simp
  have b: "cleanup cm_ab [Fin 3, Fin 4] 0 True
       = Inr (WithTrajectory [Fin 3, Fin 4] [[Fin 3, Fin 4]] 0)"
    using cleanup_no_iterations [OF order_refl len, of True] by simp
  from CleanupMemory_init_voc_ab a b n show ?thesis by (intro conjI)
qed

subsection \<open>Roots of unity\<close>

lemma root_0 [simp]: "unity_root n 0 = 1"
  by (simp add: unity_root_def)

lemma root_add: "unity_root n (s + t) = unity_root n s * unity_root n t"
  by (simp add: unity_root_def cis_mult add_divide_distrib distrib_left)

lemma root_minus: "unity_root n (- t) = cnj (unity_root n t)"
  by (simp add: unity_root_def cis_cnj)

lemma root_multiple:
  assumes "0 < n"
  shows "unity_root n (int n * q) = 1"
proof -
  have "2 * pi * of_int (int n * q) / real n = 2 * pi * of_int q"
    using assms by simp
  then show ?thesis by (simp add: unity_root_def)
qed

lemma root_dvd: "0 < n \<Longrightarrow> int n dvd t \<Longrightarrow> unity_root n t = 1"
  by (auto simp: dvd_def root_multiple)

lemma root_not_dvd:
  assumes "0 < n" and "\<not> int n dvd t"
  shows "unity_root n t \<noteq> 1"
proof
  assume "unity_root n t = 1"
  then have "cos (2 * pi * of_int t / real n) = 1"
    by (simp add: unity_root_def complex_eq_iff)
  then obtain q :: int where q: "2 * pi * of_int t / real n = of_int q * 2 * pi"
    by (auto simp: cos_one_2pi_int)
  then have "2 * pi * (of_int t / real n - of_int q) = 0"
    by (simp add: algebra_simps)
  then have "of_int t / real n = (of_int q :: real)"
    by simp
  then have "(of_int t :: real) = of_int q * real n"
    using assms(1) by (simp add: field_simps)
  then have "(of_int t :: real) = of_int (q * int n)" by simp
  then have "t = q * int n" by (simp only: of_int_eq_iff)
  with assms(2) show False by simp
qed

lemma root_power: "unity_root n t ^ k = unity_root n (t * int k)"
  by (simp add: unity_root_def DeMoivre algebra_simps)

lemma root_sum:
  assumes "0 < n"
  shows "(\<Sum>k<n. unity_root n (t * int k)) = (if int n dvd t then of_nat n else 0)"
proof (cases "int n dvd t")
  case True
  then have "unity_root n (t * int k) = 1" for k
    using assms by (intro root_dvd) auto
  with True show ?thesis by simp
next
  case False
  then have ne: "unity_root n t \<noteq> 1" using assms by (rule root_not_dvd[rotated])
  have "unity_root n t ^ n = 1"
    using assms by (simp add: root_power root_dvd)
  then have "(\<Sum>k<n. unity_root n t ^ k) = 0"
    using ne by (simp add: sum_gp_strict)
  with False show ?thesis by (simp add: root_power)
qed

subsection \<open>The real inverse transform as a full inverse transform\<close>

text \<open>A sum over a full period, folded onto its first half.\<close>

lemma sum_mirror:
  fixes g :: "nat \<Rightarrow> real"
  assumes sym: "\<And>k. 0 < k \<Longrightarrow> k < n \<Longrightarrow> g (n - k) = g k" and hn: "h < n"
  shows "(\<Sum>k = n - h..<n. g k) = (\<Sum>k = 1..h. g k)"
proof (rule sum.reindex_bij_witness [where i = "\<lambda>k. n - k" and j = "\<lambda>k. n - k"])
  fix k assume k: "k \<in> {n - h..<n}"
  then show "n - (n - k) = k" "n - k \<in> {1..h}" using hn by auto
  have "g (n - (n - k)) = g (n - k)" using k hn by (intro sym) auto
  then show "g (n - k) = g k" using k by simp
next
  fix k assume "k \<in> {1..h}"
  then show "n - (n - k) = k" "n - k \<in> {n - h..<n}" using hn by auto
qed

lemma sum_hermitian:
  fixes g :: "nat \<Rightarrow> real"
  assumes "0 < n" and sym: "\<And>k. 0 < k \<Longrightarrow> k < n \<Longrightarrow> g (n - k) = g k"
  shows "(\<Sum>k<n. g k)
           = g 0 + 2 * (\<Sum>k = 1..(n - 1) div 2. g k) + (if even n then g (n div 2) else 0)"
proof -
  define h where "h = (n - 1) div 2"
  have hn: "h < n" using assms(1) by (simp add: h_def)
  have mir: "(\<Sum>k = n - h..<n. g k) = (\<Sum>k = 1..h. g k)"
    using sym hn by (rule sum_mirror)
  have split0: "(\<Sum>k<n. g k) = g 0 + (\<Sum>k = 1..<n. g k)"
    using assms(1) by (simp add: lessThan_atLeast0 sum.atLeast_Suc_lessThan)
  show ?thesis
  proof (cases "even n")
    case True
    then have n: "n = 2 * h + 2" using assms(1) by (auto simp: h_def elim!: evenE)
    have "{1..<n} = {1..h} \<union> {h + 1} \<union> {n - h..<n}" using n by auto
    moreover have "({1..h} \<union> {h + 1}) \<inter> {n - h..<n} = {}" using n by auto
    ultimately have "(\<Sum>k = 1..<n. g k) = (\<Sum>k = 1..h. g k) + g (h + 1) + (\<Sum>k = n - h..<n. g k)"
      by (simp add: sum.union_disjoint)
    moreover have "n div 2 = h + 1" using n by simp
    ultimately show ?thesis using True split0 mir by (simp add: h_def)
  next
    case False
    then have n: "n = 2 * h + 1" by (auto simp: h_def elim!: oddE)
    have "{1..<n} = {1..h} \<union> {n - h..<n}" using n by auto
    moreover have "{1..h} \<inter> {n - h..<n} = {}" using n by auto
    ultimately have "(\<Sum>k = 1..<n. g k) = (\<Sum>k = 1..h. g k) + (\<Sum>k = n - h..<n. g k)"
      by (simp add: sum.union_disjoint)
    then show ?thesis using False split0 mir by (simp add: h_def)
  qed
qed

lemma rfft_nth:
  assumes "k \<le> length a div 2"
  shows "rfft a ! k = dft 1 a k"
proof -
  have c: "cis (- (2 * pi * real k * real m / real (length a)))
          = unity_root (length a) (- (1 * int k * int m))" for m
    by (simp add: unity_root_def mult.assoc)
  have lt: "k < length [0..<length a div 2 + 1]" using assms by simp
  have nth: "[0..<length a div 2 + 1] ! k = k"
    using assms by (simp del: upt_Suc add: nth_upt)
  show ?thesis
    unfolding rfft_def Let_def nth_map [OF lt] nth dft_def c ..
qed

lemma cnj_dft: "cnj (dft s a k) = dft (- s) a k"
  by (simp add: dft_def root_minus [symmetric])

lemma dft_mirror:
  assumes "k < length a"
  shows "dft s a (length a - k) = cnj (dft s a k)"
proof -
  define n where "n = length a"
  have pos: "0 < n" using assms by (auto simp: n_def)
  have "unity_root n (- (s * int (n - k) * int m)) = unity_root n (- (- s * int k * int m))" for m
  proof -
    have "- (s * int (n - k) * int m) = int n * (- (s * int m)) + - (- s * int k * int m)"
      using assms by (simp add: n_def of_nat_diff algebra_simps)
    then show ?thesis
      using pos by (simp only: root_add root_multiple) simp
  qed
  then show ?thesis by (simp add: cnj_dft) (simp add: dft_def n_def)
qed


lemma root_half:
  assumes "even n" and "0 < n"
  shows "unity_root n (int (n div 2) * int j) = (- 1) ^ j"
proof -
  from assms obtain h where h: "n = 2 * h" "0 < h" by (auto elim!: evenE)
  have "2 * pi * (real h * real j) / (2 * real h) = real j * pi"
    using h(2) by simp
  then have "unity_root n (int (n div 2) * int j) = cis (real j * pi)"
    by (simp add: unity_root_def h(1))
  also have "\<dots> = cis pi ^ j" by (simp only: DeMoivre)
  finally show ?thesis by simp
qed

lemma irfft_full:
  assumes pos: "0 < n" and j: "j < n"
    and X: "\<And>k. k \<le> n div 2 \<Longrightarrow> X ! k = P k"
    and herm: "\<And>k. 0 < k \<Longrightarrow> k < n \<Longrightarrow> P (n - k) = cnj (P k)"
  shows "irfft X n ! j = Re (\<Sum>k<n. P k * unity_root n (int k * int j)) / real n"
proof -
  define g where "g k = Re (P k * unity_root n (int k * int j))" for k
  have c: "cis (2 * pi * real k * real j / real n) = unity_root n (int k * int j)" for k
    by (simp add: unity_root_def mult.assoc)
  have sym: "g (n - k) = g k" if "0 < k" "k < n" for k
  proof -
    have "int (n - k) * int j = int n * int j + - (int k * int j)"
      using that by (simp add: of_nat_diff algebra_simps)
    then have "unity_root n (int (n - k) * int j) = cnj (unity_root n (int k * int j))"
      using pos by (simp only: root_add root_multiple root_minus) simp
    then have "P (n - k) * unity_root n (int (n - k) * int j)
                 = cnj (P k * unity_root n (int k * int j))"
      using herm [OF that] by simp
    then show ?thesis by (simp only: g_def cnj.simps)
  qed
  have g0: "g 0 = Re (X ! 0)" using X [of 0] by (simp add: g_def)
  have gk: "(\<Sum>k = 1..(n - 1) div 2. Re (X ! k * cis (2 * pi * real k * real j / real n)))
              = (\<Sum>k = 1..(n - 1) div 2. g k)"
  proof (rule sum.cong [OF refl])
    fix k assume "k \<in> {1..(n - 1) div 2}"
    then have "k \<le> n div 2" by auto
    then show "Re (X ! k * cis (2 * pi * real k * real j / real n)) = g k"
      by (simp only: X c g_def)
  qed
  have gh: "(if even n then Re (X ! (n div 2)) * (- 1) ^ j else 0)
              = (if even n then g (n div 2) else 0)"
    using pos by (simp add: g_def X root_half)
  have "irfft X n ! j = (g 0 + 2 * (\<Sum>k = 1..(n - 1) div 2. g k)
                           + (if even n then g (n div 2) else 0)) / real n"
    using j by (simp only: irfft_def nth_map length_upt diff_zero nth_upt add_0 g0 gk gh)
  also have "\<dots> = (\<Sum>k<n. g k) / real n"
    using sum_hermitian [OF pos, of g] sym by simp
  finally show ?thesis by (simp add: g_def)
qed

lemma dft_product_inverse:
  assumes la: "length a = n" and lb: "length b = n" and pos: "0 < n"
  shows "(\<Sum>k<n. dft 1 a k * dft s b k * unity_root n (int k * int j))
           = of_real (real n * (\<Sum>m<n. \<Sum>l<n.
               a ! m * b ! l * (if int n dvd int j - int m - s * int l then 1 else 0)))"
proof -
  define T where "T m l = int j - int m - s * int l" for m l
  have tm: "dft 1 a k * dft s b k * unity_root n (int k * int j)
                = (\<Sum>m<n. \<Sum>l<n. of_real (a ! m * b ! l) * unity_root n (T m l * int k))" for k
  proof -
    have r: "unity_root n (- (1 * int k * int m)) * unity_root n (- (s * int k * int l))
               * unity_root n (int k * int j) = unity_root n (T m l * int k)" for m l
      by (simp add: root_add [symmetric] T_def algebra_simps)
    have "dft 1 a k * dft s b k * unity_root n (int k * int j)
            = (\<Sum>m<n. \<Sum>l<n. (of_real (a ! m) * unity_root n (- (1 * int k * int m)))
                 * (of_real (b ! l) * unity_root n (- (s * int k * int l)))
                 * unity_root n (int k * int j))"
      by (simp only: dft_def la lb sum_product) (simp only: sum_distrib_right)
    also have "\<dots> = (\<Sum>m<n. \<Sum>l<n. of_real (a ! m * b ! l) * unity_root n (T m l * int k))"
    proof (intro sum.cong refl)
      fix m l
      have "(of_real (a ! m) * unity_root n (- (1 * int k * int m)))
                 * (of_real (b ! l) * unity_root n (- (s * int k * int l)))
                 * unity_root n (int k * int j)
              = of_real (a ! m * b ! l) * (unity_root n (- (1 * int k * int m))
                  * unity_root n (- (s * int k * int l)) * unity_root n (int k * int j))"
        by (simp add: mult_ac)
      then show "(of_real (a ! m) * unity_root n (- (1 * int k * int m)))
                 * (of_real (b ! l) * unity_root n (- (s * int k * int l)))
                 * unity_root n (int k * int j)
              = of_real (a ! m * b ! l) * unity_root n (T m l * int k)"
        by (simp only: r)
    qed
    finally show ?thesis .
  qed
  have "(\<Sum>k<n. dft 1 a k * dft s b k * unity_root n (int k * int j))
          = (\<Sum>k<n. \<Sum>m<n. \<Sum>l<n. of_real (a ! m * b ! l) * unity_root n (T m l * int k))"
    by (simp only: tm)
  also have "\<dots> = (\<Sum>m<n. \<Sum>k<n. \<Sum>l<n. of_real (a ! m * b ! l) * unity_root n (T m l * int k))"
    by (rule sum.swap)
  also have "\<dots> = (\<Sum>m<n. \<Sum>l<n. \<Sum>k<n. of_real (a ! m * b ! l) * unity_root n (T m l * int k))"
    by (intro sum.cong refl sum.swap)
  also have "\<dots> = (\<Sum>m<n. \<Sum>l<n. of_real (a ! m * b ! l)
                        * (if int n dvd T m l then of_nat n else 0))"
    by (simp only: sum_distrib_left [symmetric] root_sum [OF pos])
  also have "\<dots> = (\<Sum>m<n. \<Sum>l<n. of_real (real n *
               (a ! m * b ! l * (if int n dvd T m l then 1 else 0))))"
    by (intro sum.cong refl) simp
  also have "\<dots> = of_real (real n * (\<Sum>m<n. \<Sum>l<n.
               a ! m * b ! l * (if int n dvd T m l then 1 else 0)))"
    by (simp only: sum_distrib_left of_real_sum)
  finally show ?thesis by (simp only: T_def)
qed

lemma irfft_product:
  assumes la: "length a = n" and lb: "length b = n" and pos: "0 < n" and j: "j < n"
    and X: "\<And>k. k \<le> n div 2 \<Longrightarrow> X ! k = dft 1 a k * dft s b k"
  shows "irfft X n ! j
           = (\<Sum>m<n. \<Sum>l<n. a ! m * b ! l * (if int n dvd int j - int m - s * int l then 1 else 0))"
proof -
  have herm: "dft 1 a (n - k) * dft s b (n - k) = cnj (dft 1 a k * dft s b k)"
    if "0 < k" "k < n" for k
    using that dft_mirror [of k a 1] dft_mirror [of k b s] by (simp add: la lb)
  have "irfft X n ! j
          = Re (\<Sum>k<n. dft 1 a k * dft s b k * unity_root n (int k * int j)) / real n"
    using pos j X herm by (rule irfft_full)
  then show ?thesis
    using pos by (simp only: dft_product_inverse [OF la lb pos] Re_complex_of_real) simp
qed

lemma conv_index:
  assumes "m < n" and "l < n"
  shows "int n dvd int j - int m - 1 * int l \<longleftrightarrow> l = (j + n - m) mod n"
proof -
  have "int n dvd int j - int m - 1 * int l \<longleftrightarrow> (int j - int m) mod int n = int l mod int n"
    by (simp add: mod_eq_dvd_iff)
  also have "(int j - int m) mod int n = int ((j + n - m) mod n)"
  proof -
    have "int (j + n - m) = (int j - int m) + int n" using assms(1) by simp
    then show ?thesis by (simp add: zmod_int)
  qed
  also have "int l mod int n = int l" using assms(2) by simp
  finally show ?thesis by auto
qed

lemma corr_index:
  assumes "m < n"
  shows "int n dvd int j - int m - (- 1) * int l \<longleftrightarrow> m = (j + l) mod n"
proof -
  have "int n dvd int j - int m - (- 1) * int l \<longleftrightarrow> int (j + l) mod int n = int m mod int n"
    by (simp add: mod_eq_dvd_iff algebra_simps)
  also have "int (j + l) mod int n = int ((j + l) mod n)" by (simp add: zmod_int)
  also have "int m mod int n = int m" using assms by simp
  finally show ?thesis by auto
qed

subsection \<open>The convolution theorem\<close>

lemma length_rfft [simp]: "length (rfft a) = length a div 2 + 1"
  by (simp add: rfft_def Let_def del: upt_Suc)

lemma length_irfft [simp]: "length (irfft X n) = n"
  by (simp add: irfft_def)

lemma length_cconv [simp]: "length (cconv a b) = length a"
  by (simp add: cconv_def Let_def)

lemma length_ccorr [simp]: "length (ccorr c a) = length c"
  by (simp add: ccorr_def Let_def)

text \<open>
  The convolution theorem for the real transforms: the inverse transform of the product of
  the transforms is the circular convolution, as a sum over the indices.
\<close>

lemma irfft_conv:
  assumes len: "length a = length b" and ne: "a \<noteq> []"
  shows "irfft (map2 (*) (rfft a) (rfft b)) (length a) = cconv a b"
proof (rule nth_equalityI)
  show "length (irfft (map2 (*) (rfft a) (rfft b)) (length a)) = length (cconv a b)" by simp
next
  fix j assume "j < length (irfft (map2 (*) (rfft a) (rfft b)) (length a))"
  then have j: "j < length a" by simp
  define n where "n = length a"
  have pos: "0 < n" using ne by (simp add: n_def)
  have X: "map2 (*) (rfft a) (rfft b) ! k = dft 1 a k * dft 1 b k" if "k \<le> n div 2" for k
    using that len by (simp add: n_def rfft_nth)
  have "irfft (map2 (*) (rfft a) (rfft b)) n ! j
          = (\<Sum>m<n. \<Sum>l<n. a ! m * b ! l * (if int n dvd int j - int m - 1 * int l then 1 else 0))"
    using _ _ pos _ X by (rule irfft_product) (use j len in \<open>simp_all add: n_def\<close>)
  also have "\<dots> = (\<Sum>m<n. \<Sum>l<n. a ! m * b ! l * (if l = (j + n - m) mod n then 1 else 0))"
    by (intro sum.cong refl) (simp only: conv_index lessThan_iff)
  also have "\<dots> = (\<Sum>m<n. a ! m * b ! ((j + n - m) mod n))"
  proof (intro sum.cong refl)
    fix m
    have "(j + n - m) mod n < n" using pos by simp
    then show "(\<Sum>l<n. a ! m * b ! l * (if l = (j + n - m) mod n then 1 else 0))
                 = a ! m * b ! ((j + n - m) mod n)"
      by (simp add: if_distrib [of "\<lambda>x. _ * x"] sum.delta cong: if_cong)
  qed
  finally show "irfft (map2 (*) (rfft a) (rfft b)) (length a) ! j = cconv a b ! j"
    using j by (simp add: cconv_def n_def Let_def)
qed

lemma irfft_corr:
  assumes len: "length c = length a" and ne: "c \<noteq> []"
  shows "irfft (map2 (*) (rfft c) (map cnj (rfft a))) (length c) = ccorr c a"
proof (rule nth_equalityI)
  show "length (irfft (map2 (*) (rfft c) (map cnj (rfft a))) (length c)) = length (ccorr c a)"
    by simp
next
  fix j assume "j < length (irfft (map2 (*) (rfft c) (map cnj (rfft a))) (length c))"
  then have j: "j < length c" by simp
  define n where "n = length c"
  have pos: "0 < n" using ne by (simp add: n_def)
  have X: "map2 (*) (rfft c) (map cnj (rfft a)) ! k = dft 1 c k * dft (- 1) a k"
    if "k \<le> n div 2" for k
    using that len by (simp add: n_def rfft_nth cnj_dft)
  have "irfft (map2 (*) (rfft c) (map cnj (rfft a))) n ! j
          = (\<Sum>m<n. \<Sum>l<n. c ! m * a ! l * (if int n dvd int j - int m - (- 1) * int l then 1 else 0))"
    using _ _ pos _ X by (rule irfft_product) (use j len in \<open>simp_all add: n_def\<close>)
  also have "\<dots> = (\<Sum>m<n. \<Sum>l<n. c ! m * a ! l * (if m = (j + l) mod n then 1 else 0))"
    by (intro sum.cong refl) (simp only: corr_index lessThan_iff)
  also have "\<dots> = (\<Sum>l<n. \<Sum>m<n. c ! m * a ! l * (if m = (j + l) mod n then 1 else 0))"
    by (rule sum.swap)
  also have "\<dots> = (\<Sum>l<n. c ! ((j + l) mod n) * a ! l)"
  proof (intro sum.cong refl)
    fix l
    have "(j + l) mod n < n" using pos by simp
    then show "(\<Sum>m<n. c ! m * a ! l * (if m = (j + l) mod n then 1 else 0))
                 = c ! ((j + l) mod n) * a ! l"
      by (simp add: if_distrib [of "\<lambda>x. _ * x"] sum.delta cong: if_cong)
  qed
  finally show "irfft (map2 (*) (rfft c) (map cnj (rfft a))) (length c) ! j = ccorr c a ! j"
    using j by (simp add: ccorr_def n_def Let_def)
qed

subsection \<open>The operations on small vectors\<close>

lemma circular_convolution_cconv:
  "circular_convolution a b =
     (if length a \<noteq> length b then Inl DimensionMismatch
      else if length a = 0 then Inl InvalidFftSize
      else Inr (normalize (cconv a b)))"
proof (cases "length a = length b \<and> a \<noteq> []")
  case True
  then have "irfft (map2 (*) (rfft a) (rfft b)) (length a) = cconv a b"
    by (intro irfft_conv) auto
  with True show ?thesis by (simp add: circular_convolution_def)
next
  case False
  then show ?thesis by (auto simp: circular_convolution_def)
qed

lemma circular_correlation_ccorr:
  "circular_correlation c a =
     (if length c \<noteq> length a then Inl DimensionMismatch
      else if length c = 0 then Inl InvalidFftSize
      else Inr (normalize (ccorr c a)))"
proof (cases "length c = length a \<and> c \<noteq> []")
  case True
  then have "irfft (map2 (*) (rfft c) (map cnj (rfft a))) (length c) = ccorr c a"
    by (intro irfft_corr) auto
  with True show ?thesis by (simp add: circular_correlation_def)
next
  case False
  then show ?thesis by (auto simp: circular_correlation_def)
qed

lemma cconv_3: "cconv [x0, x1, x2] [v0, v1, v2]
   = [x0 * v0 + x1 * v2 + x2 * v1, x0 * v1 + x1 * v0 + x2 * v2, x0 * v2 + x1 * v1 + x2 * v0]"
  by (simp add: cconv_def Let_def lessThan_Suc mod_Suc)

lemma cconv_2: "cconv [x0, x1] [v0, v1] = [x0 * v0 + x1 * v1, x0 * v1 + x1 * v0]"
  by (simp add: cconv_def Let_def lessThan_Suc mod_Suc)

lemma ccorr_2: "ccorr [c0, c1] [a0, a1] = [c0 * a0 + c1 * a1, c1 * a0 + c0 * a1]"
  by (simp add: ccorr_def Let_def lessThan_Suc mod_Suc)

lemma circulant_3:
  "matvec (circular_conv_matrix [v0, v1, v2]) [x0, x1, x2]
     = [v0 * x0 + v1 * x1 + v2 * x2, v2 * x0 + v0 * x1 + v1 * x2, v1 * x0 + v2 * x1 + v0 * x2]"
  by (simp add: matvec_def circular_conv_matrix_def roll_def dot_def Let_def)

subsection \<open>Result names in the vocabulary\<close>

lemma map_of_dict_set: "map_of (dict_set xs k v) = (map_of xs)(k \<mapsto> v)"
  by (induction xs k v rule: dict_set.induct) auto

lemma get_dict_set:
  "get (voc\<lparr>vectors := dict_set (vectors voc) k v\<rparr>) k' = (if k' = k then Inr v else get voc k')"
  by (simp add: get_def map_of_dict_set)

lemma get_not_exists: "get voc n \<noteq> Inl AlreadyExists"
  by (simp add: get_def split: option.splits)

lemma get_all_not_exists: "get_all voc ns \<noteq> Inl AlreadyExists"
  by (induction ns) (auto simp: get_not_exists split: sum.splits)

lemma superpose_voc_ab:
  "superpose voc_ab [''B''] ''A''
     = Inr (\<lparr>voc_dim = 2, vectors = [(''A'', [0, 1]), (''B'', [0, 1])]\<rparr>, [0, 1])"
  by (simp add: superpose_def voc_ab_def get_def superposition_def sum_axis0_def normalize_def
      linalg_norm_def dot_def floor_eps_def)

lemma dict_set_keys:
  "map fst (dict_set xs k v) = (if k \<in> fst ` set xs then map fst xs else map fst xs @ [k])"
  by (induction xs k v rule: dict_set.induct) auto

lemma stored_result:
  "voc_dim (voc\<lparr>vectors := dict_set (vectors voc) r res\<rparr>) = voc_dim voc
   \<and> get (voc\<lparr>vectors := dict_set (vectors voc) r res\<rparr>) r = Inr res
   \<and> (\<forall>k. k \<noteq> r \<longrightarrow> get (voc\<lparr>vectors := dict_set (vectors voc) r res\<rparr>) k = get voc k)
   \<and> map fst (vectors (voc\<lparr>vectors := dict_set (vectors voc) r res\<rparr>))
       = (if r \<in> fst ` set (vectors voc) then map fst (vectors voc)
          else map fst (vectors voc) @ [r])"
  by (simp add: get_dict_set dict_set_keys)

lemma normalize_e1: "normalize [0, 1] = [0, 1]"
  by (simp add: normalize_def linalg_norm_def dot_def floor_eps_def)

text \<open>
  Claim C2, as stated, fails: in the vocabulary \<open>{A: [1, 0], B: [0, 1]}\<close> the call
  \<open>superpose("B", result_name="A")\<close> succeeds although \<open>A\<close> is present, and \<open>A\<close>, which
  held \<open>[1, 0]\<close>, holds \<open>[0, 1]\<close> afterwards.
\<close>

theorem result_name_collision_counterexample:
  "get voc_ab ''A'' = Inr [1, 0]
   \<and> superpose voc_ab [''B''] ''A''
       = Inr (\<lparr>voc_dim = 2, vectors = [(''A'', [0, 1]), (''B'', [0, 1])]\<rparr>, [0, 1])
   \<and> get \<lparr>voc_dim = 2, vectors = [(''A'', [0, 1]), (''B'', [0, 1])]\<rparr> ''A'' = Inr [0, 1]"
  by (simp add: superpose_voc_ab) (simp add: get_def voc_ab_def)

text \<open>
  Claim C2, amended. When the lookups of the operands and the operation of the algebra
  succeed, \<open>bind\<close>, \<open>unbind\<close> and \<open>superpose\<close> succeed, whether or not the result name
  is present: they return the result, and in the vocabulary they leave the result name
  maps to the result, every other name maps to what it mapped to, and the names keep
  their order, a present result name its position and a new one the last position. None
  of the three fails with the already-exists error. Only \<open>add\<close> rejects a present name,
  with the already-exists error.
\<close>

theorem result_name_overwritten:
  "(get voc name_a = Inr x \<and> get voc name_b = Inr y \<and> circular_convolution x y = Inr res \<longrightarrow>
      (\<exists>voc'. bind voc name_a name_b r = Inr (voc', res)
         \<and> voc_dim voc' = voc_dim voc
         \<and> get voc' r = Inr res
         \<and> (\<forall>k. k \<noteq> r \<longrightarrow> get voc' k = get voc k)
         \<and> map fst (vectors voc')
             = (if r \<in> fst ` set (vectors voc) then map fst (vectors voc)
                else map fst (vectors voc) @ [r])))
   \<and> (get voc name_a = Inr x \<and> get voc name_b = Inr y \<and> circular_correlation x y = Inr res \<longrightarrow>
      (\<exists>voc'. unbind voc name_a name_b r = Inr (voc', res)
         \<and> voc_dim voc' = voc_dim voc
         \<and> get voc' r = Inr res
         \<and> (\<forall>k. k \<noteq> r \<longrightarrow> get voc' k = get voc k)
         \<and> map fst (vectors voc')
             = (if r \<in> fst ` set (vectors voc) then map fst (vectors voc)
                else map fst (vectors voc) @ [r])))
   \<and> (get_all voc names = Inr vs \<and> superposition vs = Inr res \<longrightarrow>
      (\<exists>voc'. superpose voc names r = Inr (voc', res)
         \<and> voc_dim voc' = voc_dim voc
         \<and> get voc' r = Inr res
         \<and> (\<forall>k. k \<noteq> r \<longrightarrow> get voc' k = get voc k)
         \<and> map fst (vectors voc')
             = (if r \<in> fst ` set (vectors voc) then map fst (vectors voc)
                else map fst (vectors voc) @ [r])))
   \<and> bind voc name_a name_b r \<noteq> Inl AlreadyExists
   \<and> unbind voc name_a name_b r \<noteq> Inl AlreadyExists
   \<and> superpose voc names r \<noteq> Inl AlreadyExists
   \<and> (r \<in> fst ` set (vectors voc) \<longrightarrow> add voc r vector rng = Inl AlreadyExists)"
proof (intro conjI impI)
  assume "get voc name_a = Inr x \<and> get voc name_b = Inr y \<and> circular_convolution x y = Inr res"
  then have "bind voc name_a name_b r = Inr (voc\<lparr>vectors := dict_set (vectors voc) r res\<rparr>, res)"
    by (simp add: bind_def)
  with stored_result [of voc r res]
  show "\<exists>voc'. bind voc name_a name_b r = Inr (voc', res)
         \<and> voc_dim voc' = voc_dim voc
         \<and> get voc' r = Inr res
         \<and> (\<forall>k. k \<noteq> r \<longrightarrow> get voc' k = get voc k)
         \<and> map fst (vectors voc')
             = (if r \<in> fst ` set (vectors voc) then map fst (vectors voc)
                else map fst (vectors voc) @ [r])"
    by (intro exI [of _ "voc\<lparr>vectors := dict_set (vectors voc) r res\<rparr>"] conjI) simp_all
next
  assume "get voc name_a = Inr x \<and> get voc name_b = Inr y \<and> circular_correlation x y = Inr res"
  then have "unbind voc name_a name_b r = Inr (voc\<lparr>vectors := dict_set (vectors voc) r res\<rparr>, res)"
    by (simp add: unbind_def)
  with stored_result [of voc r res]
  show "\<exists>voc'. unbind voc name_a name_b r = Inr (voc', res)
         \<and> voc_dim voc' = voc_dim voc
         \<and> get voc' r = Inr res
         \<and> (\<forall>k. k \<noteq> r \<longrightarrow> get voc' k = get voc k)
         \<and> map fst (vectors voc')
             = (if r \<in> fst ` set (vectors voc) then map fst (vectors voc)
                else map fst (vectors voc) @ [r])"
    by (intro exI [of _ "voc\<lparr>vectors := dict_set (vectors voc) r res\<rparr>"] conjI) simp_all
next
  assume "get_all voc names = Inr vs \<and> superposition vs = Inr res"
  then have "superpose voc names r = Inr (voc\<lparr>vectors := dict_set (vectors voc) r res\<rparr>, res)"
    by (simp add: superpose_def)
  with stored_result [of voc r res]
  show "\<exists>voc'. superpose voc names r = Inr (voc', res)
         \<and> voc_dim voc' = voc_dim voc
         \<and> get voc' r = Inr res
         \<and> (\<forall>k. k \<noteq> r \<longrightarrow> get voc' k = get voc k)
         \<and> map fst (vectors voc')
             = (if r \<in> fst ` set (vectors voc) then map fst (vectors voc)
                else map fst (vectors voc) @ [r])"
    by (intro exI [of _ "voc\<lparr>vectors := dict_set (vectors voc) r res\<rparr>"] conjI) simp_all
next
  show "bind voc name_a name_b r \<noteq> Inl AlreadyExists"
    by (auto simp: bind_def get_not_exists circular_convolution_def split: sum.splits)
next
  show "unbind voc name_a name_b r \<noteq> Inl AlreadyExists"
    by (auto simp: unbind_def get_not_exists circular_correlation_def split: sum.splits)
next
  show "superpose voc names r \<noteq> Inl AlreadyExists"
    by (auto simp: superpose_def get_all_not_exists superposition_def split: sum.splits)
next
  assume "r \<in> fst ` set (vectors voc)"
  then show "add voc r vector rng = Inl AlreadyExists"
    by (simp add: add_def)
qed

theorem result_name_overwritten_witness:
  "(\<exists>voc'. bind voc_ab ''A'' ''B'' ''A'' = Inr (voc', [0, 1])
       \<and> get voc' ''A'' = Inr [0, 1] \<and> get voc' ''B'' = Inr [0, 1]
       \<and> map fst (vectors voc') = [''A'', ''B''])
   \<and> (\<exists>voc'. unbind voc_ab ''A'' ''B'' ''A'' = Inr (voc', [0, 1])
       \<and> get voc' ''A'' = Inr [0, 1] \<and> get voc' ''B'' = Inr [0, 1]
       \<and> map fst (vectors voc') = [''A'', ''B''])
   \<and> (\<exists>voc'. superpose voc_ab [''B''] ''A'' = Inr (voc', [0, 1])
       \<and> get voc' ''A'' = Inr [0, 1] \<and> get voc' ''B'' = Inr [0, 1]
       \<and> map fst (vectors voc') = [''A'', ''B''])
   \<and> add voc_ab ''A'' None (Abs_randn (\<lambda>n. replicate n 1)) = Inl AlreadyExists"
proof -
  have ga: "get voc_ab ''A'' = Inr [1, 0]" and gb: "get voc_ab ''B'' = Inr [0, 1]"
    by (simp_all add: get_def voc_ab_def)
  have cv: "circular_convolution [1, 0] [0, 1] = Inr [0, 1]"
    by (simp add: circular_convolution_cconv cconv_2 normalize_e1)
  have cr: "circular_correlation [1, 0] [0, 1] = Inr [0, 1]"
    by (simp add: circular_correlation_ccorr ccorr_2 normalize_e1)
  have gs: "get_all voc_ab [''B''] = Inr [[0, 1]]"
    by (simp add: gb)
  have sp: "superposition [[0, 1]] = Inr [0, 1]"
    by (simp add: superposition_def sum_axis0_def normalize_e1)
  have present: "''A'' \<in> fst ` set (vectors voc_ab)" by (simp add: voc_ab_def)
  have keys: "map fst (vectors voc_ab) = [''A'', ''B'']" by (simp add: voc_ab_def)
  have other: "''B'' \<noteq> ''A''" by simp
  note t = result_name_overwritten [where voc = voc_ab and name_a = "''A''" and name_b = "''B''"
      and x = "[1, 0]" and y = "[0, 1]" and res = "[0, 1]" and r = "''A''"
      and names = "[''B'']" and vs = "[[0, 1]]" and vector = None
      and rng = "Abs_randn (\<lambda>n. replicate n 1)"]
  have post: "\<exists>voc'. f = Inr (voc', [0, 1])
       \<and> get voc' ''A'' = Inr [0, 1] \<and> get voc' ''B'' = Inr [0, 1]
       \<and> map fst (vectors voc') = [''A'', ''B'']"
    if "\<exists>voc'. f = Inr (voc', [0, 1])
         \<and> voc_dim voc' = voc_dim voc_ab
         \<and> get voc' ''A'' = Inr [0, 1]
         \<and> (\<forall>k. k \<noteq> ''A'' \<longrightarrow> get voc' k = get voc_ab k)
         \<and> map fst (vectors voc')
             = (if ''A'' \<in> fst ` set (vectors voc_ab) then map fst (vectors voc_ab)
                else map fst (vectors voc_ab) @ [''A''])"
    for f :: "error + vocabulary \<times> vec"
  proof -
    from that obtain voc' where h: "f = Inr (voc', [0, 1])" "get voc' ''A'' = Inr [0, 1]"
      "\<forall>k. k \<noteq> ''A'' \<longrightarrow> get voc' k = get voc_ab k"
      "map fst (vectors voc')
         = (if ''A'' \<in> fst ` set (vectors voc_ab) then map fst (vectors voc_ab)
            else map fst (vectors voc_ab) @ [''A''])"
      by (elim exE conjE)
    from h(3) [rule_format, OF other] gb have "get voc' ''B'' = Inr [0, 1]" by simp
    moreover from h(4) present keys have "map fst (vectors voc') = [''A'', ''B'']"
      by (simp only: if_True)
    ultimately show ?thesis using h(1,2) by (intro exI [of _ voc'] conjI)
  qed
  have b: "\<exists>voc'. bind voc_ab ''A'' ''B'' ''A'' = Inr (voc', [0, 1])
       \<and> get voc' ''A'' = Inr [0, 1] \<and> get voc' ''B'' = Inr [0, 1]
       \<and> map fst (vectors voc') = [''A'', ''B'']"
    by (rule post) (rule t [THEN conjunct1, rule_format, OF conjI [OF ga conjI [OF gb cv]]])
  have u: "\<exists>voc'. unbind voc_ab ''A'' ''B'' ''A'' = Inr (voc', [0, 1])
       \<and> get voc' ''A'' = Inr [0, 1] \<and> get voc' ''B'' = Inr [0, 1]
       \<and> map fst (vectors voc') = [''A'', ''B'']"
    by (rule post)
      (rule t [THEN conjunct2, THEN conjunct1, rule_format, OF conjI [OF ga conjI [OF gb cr]]])
  have s: "\<exists>voc'. superpose voc_ab [''B''] ''A'' = Inr (voc', [0, 1])
       \<and> get voc' ''A'' = Inr [0, 1] \<and> get voc' ''B'' = Inr [0, 1]
       \<and> map fst (vectors voc') = [''A'', ''B'']"
    by (rule post)
      (rule t [THEN conjunct2, THEN conjunct2, THEN conjunct1, rule_format, OF conjI [OF gs sp]])
  have a: "add voc_ab ''A'' None (Abs_randn (\<lambda>n. replicate n 1)) = Inl AlreadyExists"
    by (rule t [THEN conjunct2, THEN conjunct2, THEN conjunct2, THEN conjunct2, THEN conjunct2,
          THEN conjunct2, rule_format, OF present])
  from b u s a show ?thesis by (intro conjI)
qed

subsection \<open>Commutativity of binding\<close>

lemma dot_normalize:
  "dot (normalize v) (normalize v) = (if floor_eps < linalg_norm v then 1 else dot v v)"
proof (cases "floor_eps < linalg_norm v")
  case True
  then have "linalg_norm v \<noteq> 0" by (auto simp: floor_eps_def)
  then have "linalg_norm (map (\<lambda>x. x / linalg_norm v) v) = 1" by (rule linalg_norm_scaled)
  then have "dot (map (\<lambda>x. x / linalg_norm v) v) (map (\<lambda>x. x / linalg_norm v) v) = 1"
    by (simp add: linalg_norm_def)
  with True show ?thesis by (simp add: normalize_def)
next
  case False
  then show ?thesis by (simp add: normalize_def)
qed

lemma half_sqrt2: "1 / sqrt 2 * (1 / sqrt 2) = (1 / 2 :: real)"
  by simp

lemma unit_uv: "linalg_norm uv_minus = 1 \<and> linalg_norm uv_plus = 1"
  by (simp add: linalg_norm_def dot_def uv_minus_def uv_plus_def)

lemma normalize_zero2: "normalize [0, 0] = [0, 0]"
  by (simp add: normalize_def linalg_norm_def dot_def floor_eps_def)

text \<open>
  Claim C9, as stated, fails in its second half. For the unit vectors
  \<open>(1/\<surd>2, -1/\<surd>2)\<close> and \<open>(1/\<surd>2, 1/\<surd>2)\<close> the convolution is the zero vector in
  both orders; its norm is not above the floor, so it is returned unnormalised, and the
  similarity of the two results is \<open>0\<close>, not above \<open>0.99\<close>.
\<close>

theorem bind_similarity_counterexample:
  "linalg_norm uv_minus = 1 \<and> linalg_norm uv_plus = 1
   \<and> circular_convolution uv_minus uv_plus = Inr [0, 0]
   \<and> circular_convolution uv_plus uv_minus = Inr [0, 0]
   \<and> cosine_similarity [0, 0] [0, 0] = Inr 0"
proof -
  have "cconv uv_minus uv_plus = [0, 0]" "cconv uv_plus uv_minus = [0, 0]"
    by (simp_all add: uv_minus_def uv_plus_def cconv_2)
  then have "circular_convolution uv_minus uv_plus = Inr [0, 0]"
    "circular_convolution uv_plus uv_minus = Inr [0, 0]"
    by (simp_all add: circular_convolution_cconv normalize_zero2) (simp_all add: uv_minus_def uv_plus_def)
  moreover have "cosine_similarity [0, 0] [0, 0] = Inr 0"
    by (simp add: cosine_similarity_def dot_def)
  ultimately show ?thesis using unit_uv by simp
qed

text \<open>
  Claim C9, amended. \<open>circular_convolution a b\<close> and \<open>circular_convolution b a\<close> are
  equal for all \<open>a\<close> and \<open>b\<close> (the same vector, or the same error). The similarity of
  the result with itself is \<open>1\<close> when the norm of the unnormalised convolution is above
  the floor, and the square of that norm otherwise.
\<close>

theorem bind_commutative:
  "circular_convolution a b = circular_convolution b a
   \<and> (circular_convolution a b = Inr c \<longrightarrow>
        cosine_similarity c c
          = Inr (if floor_eps < linalg_norm (irfft (map2 (*) (rfft a) (rfft b)) (length a))
                 then 1
                 else dot (irfft (map2 (*) (rfft a) (rfft b)) (length a))
                          (irfft (map2 (*) (rfft a) (rfft b)) (length a))))"
proof
  have "map2 (*) (rfft a) (rfft b) = map2 (*) (rfft b) (rfft a)"
    by (rule nth_equalityI) (simp_all add: mult.commute)
  then show "circular_convolution a b = circular_convolution b a"
    by (auto simp: circular_convolution_def)
next
  show "circular_convolution a b = Inr c \<longrightarrow>
        cosine_similarity c c
          = Inr (if floor_eps < linalg_norm (irfft (map2 (*) (rfft a) (rfft b)) (length a))
                 then 1
                 else dot (irfft (map2 (*) (rfft a) (rfft b)) (length a))
                          (irfft (map2 (*) (rfft a) (rfft b)) (length a)))"
    by (auto simp: circular_convolution_def cosine_similarity_def dot_normalize split: if_splits)
qed

theorem bind_commutative_witness:
  "circular_convolution [1, 0] [0, 1] = circular_convolution [0, 1] [1, 0]
   \<and> cosine_similarity [0, 1] [0, 1] = Inr 1"
proof -
  have n: "normalize [0, 1] = [0, 1]"
    by (simp add: normalize_def linalg_norm_def dot_def floor_eps_def)
  have raw: "irfft (map2 (*) (rfft [1, 0]) (rfft [0, 1])) (length [1, 0 :: real]) = [0, 1]"
    by (subst irfft_conv) (simp_all add: cconv_2)
  have c: "circular_convolution [1, 0] [0, 1] = Inr [0, 1]"
    by (simp add: circular_convolution_cconv cconv_2 n)
  have big: "floor_eps < linalg_norm [0, 1]"
    by (simp add: linalg_norm_def dot_def floor_eps_def)
  note t = bind_commutative [of "[1, 0]" "[0, 1]" "[0, 1]"]
  from t [THEN conjunct2, rule_format, OF c] have "cosine_similarity [0, 1] [0, 1] = Inr 1"
    unfolding raw using big by simp
  with t [THEN conjunct1] show ?thesis by (intro conjI)
qed

subsection \<open>The circulant matrix of the weight generator\<close>

lemma mod_shift_back:
  fixes i l n :: nat
  assumes "i < n" and "l < n"
  shows "((i + l) mod n + n - i) mod n = l"
proof (cases "i + l < n")
  case True
  then show ?thesis using assms by simp
next
  case False
  then have "(i + l) mod n = i + l - n"
    using assms by (simp add: le_mod_geq)
  then show ?thesis using False assms by simp
qed

lemma mod_shift_forth:
  fixes i j n :: nat
  assumes "i < n" and "j < n"
  shows "(i + (j + n - i) mod n) mod n = j"
proof (cases "i \<le> j")
  case True
  then have "(j + n - i) mod n = j - i"
    using assms by (simp add: le_mod_geq)
  then show ?thesis using True assms by simp
next
  case False
  then have "(j + n - i) mod n = j + n - i" using assms by simp
  then show ?thesis using False assms by (simp add: le_mod_geq)
qed

lemma roll_nth:
  assumes "i < length v" and "j < length v"
  shows "roll v i ! j = v ! ((j + length v - i) mod length v)"
proof (cases "i \<le> j")
  case True
  then have "(j + length v - i) mod length v = j - i"
    using assms by (simp add: le_mod_geq)
  then show ?thesis using True assms by (auto simp: roll_def Let_def nth_append)
next
  case False
  then have "(j + length v - i) mod length v = j + length v - i" using assms by simp
  moreover have "length v - i + j = j + length v - i" using assms by simp
  ultimately show ?thesis using False assms by (auto simp: roll_def Let_def nth_append)
qed

lemma length_roll [simp]: "length (roll v i) = length v"
  by (auto simp: roll_def Let_def)

lemma dot_sum:
  assumes "length a = length b"
  shows "dot a b = (\<Sum>i<length a. a ! i * b ! i)"
proof -
  have "dot a b = (\<Sum>i = 0..<length (map2 (*) a b). map2 (*) a b ! i)"
    unfolding dot_def by (rule sum_list_sum_nth)
  also have "\<dots> = (\<Sum>i<length a. a ! i * b ! i)"
    using assms by (simp add: lessThan_atLeast0)
  finally show ?thesis .
qed

text \<open>
  What the matrix of \<open>_circular_conv_matrix\<close> computes: applied to \<open>x\<close> it gives the
  circular correlation of \<open>x\<close> with \<open>v\<close>, not their convolution.
\<close>

lemma circulant_is_correlation:
  assumes "length x = length v"
  shows "matvec (circular_conv_matrix v) x = ccorr x v"
proof (rule nth_equalityI)
  show "length (matvec (circular_conv_matrix v) x) = length (ccorr x v)"
    using assms by (simp add: matvec_def circular_conv_matrix_def)
next
  fix i assume "i < length (matvec (circular_conv_matrix v) x)"
  then have i: "i < length v" by (simp add: matvec_def circular_conv_matrix_def)
  define n where "n = length v"
  have pos: "0 < n" using i by (auto simp: n_def)
  have "matvec (circular_conv_matrix v) x ! i = dot (roll v i) x"
    using i by (simp add: matvec_def circular_conv_matrix_def)
  also have "\<dots> = (\<Sum>j<n. roll v i ! j * x ! j)"
    using assms by (simp add: dot_sum n_def)
  also have "\<dots> = (\<Sum>j<n. v ! ((j + n - i) mod n) * x ! j)"
    using i by (intro sum.cong refl) (simp add: roll_nth n_def)
  also have "\<dots> = (\<Sum>l<n. x ! ((i + l) mod n) * v ! l)"
  proof (rule sum.reindex_bij_witness [where i = "\<lambda>l. (i + l) mod n" and j = "\<lambda>j. (j + n - i) mod n"])
    fix j assume "j \<in> {..<n}"
    then show "(i + (j + n - i) mod n) mod n = j" "(j + n - i) mod n \<in> {..<n}"
      using i pos by (auto simp add: mod_shift_forth n_def)
    show "x ! ((i + (j + n - i) mod n) mod n) * v ! ((j + n - i) mod n)
            = v ! ((j + n - i) mod n) * x ! j"
      using \<open>j \<in> {..<n}\<close> i by (simp add: mod_shift_forth n_def)
  next
    fix l assume "l \<in> {..<n}"
    then show "((i + l) mod n + n - i) mod n = l" "(i + l) mod n \<in> {..<n}"
      using i pos by (auto simp add: mod_shift_back n_def)
  qed
  finally show "matvec (circular_conv_matrix v) x ! i = ccorr x v ! i"
    using i assms by (simp add: ccorr_def Let_def n_def)
qed

text \<open>
  Claim C1 fails on the code for every dimension from 3 on. With \<open>v = [0, 1, 0]\<close> and
  \<open>x = [1, 0, 0]\<close> the matrix of \<open>_circular_conv_matrix(v)\<close> maps \<open>x\<close> to \<open>[0, 0, 1]\<close>,
  while the circular convolution \<open>irfft(rfft(x) * rfft(v))\<close> is \<open>[0, 1, 0]\<close>.
\<close>

theorem circulant_not_convolution:
  "matvec (circular_conv_matrix [0, 1, 0]) [1, 0, 0] = [0, 0, 1]
   \<and> irfft (map2 (*) (rfft [1, 0, 0]) (rfft [0, 1, 0])) 3 = [0, 1, 0]"
proof -
  have "irfft (map2 (*) (rfft [1, 0, 0]) (rfft [0, 1, 0])) (length [1, 0, 0 :: real]) = [0, 1, 0]"
    by (subst irfft_conv) (simp_all add: cconv_3)
  moreover have "length [1, 0, 0 :: real] = 3" by simp
  ultimately have "irfft (map2 (*) (rfft [1, 0, 0]) (rfft [0, 1, 0])) 3 = [0, 1, 0]"
    by (simp only:)
  then show ?thesis by (simp add: circulant_3)
qed

subsection \<open>Binding followed by unbinding\<close>

text \<open>Correlation with \<open>b\<close> is the adjoint of convolution with \<open>b\<close>.\<close>

lemma ccorr_adjoint:
  assumes la: "length a = n" and lb: "length b = n" and lc: "length c = n"
  shows "dot (ccorr c b) a = dot c (cconv a b)"
proof (cases "n = 0")
  case True
  then show ?thesis using la lb lc by (simp add: dot_def)
next
  case False
  then have pos: "0 < n" by simp
  have "dot (ccorr c b) a = (\<Sum>j<n. (\<Sum>l<n. c ! ((j + l) mod n) * b ! l) * a ! j)"
    using la lc by (simp add: dot_sum ccorr_def Let_def)
  also have "\<dots> = (\<Sum>j<n. \<Sum>l<n. c ! ((j + l) mod n) * b ! l * a ! j)"
    by (simp add: sum_distrib_right)
  also have "\<dots> = (\<Sum>j<n. \<Sum>i<n. c ! i * b ! ((i + n - j) mod n) * a ! j)"
  proof (rule sum.cong [OF refl])
    fix j assume "j \<in> {..<n}"
    then have j: "j < n" by simp
    show "(\<Sum>l<n. c ! ((j + l) mod n) * b ! l * a ! j)
            = (\<Sum>i<n. c ! i * b ! ((i + n - j) mod n) * a ! j)"
    proof (rule sum.reindex_bij_witness [where i = "\<lambda>i. (i + n - j) mod n" and j = "\<lambda>l. (j + l) mod n"])
      fix l assume "l \<in> {..<n}"
      then show "((j + l) mod n + n - j) mod n = l" "(j + l) mod n \<in> {..<n}"
        using j pos by (auto simp: mod_shift_back)
      show "c ! ((j + l) mod n) * b ! (((j + l) mod n + n - j) mod n) * a ! j
              = c ! ((j + l) mod n) * b ! l * a ! j"
        using \<open>l \<in> {..<n}\<close> j by (simp add: mod_shift_back)
    next
      fix i assume "i \<in> {..<n}"
      then show "(j + (i + n - j) mod n) mod n = i" "(i + n - j) mod n \<in> {..<n}"
        using j pos by (auto simp: mod_shift_forth)
    qed
  qed
  also have "\<dots> = (\<Sum>i<n. \<Sum>j<n. c ! i * b ! ((i + n - j) mod n) * a ! j)"
    by (rule sum.swap)
  also have "\<dots> = (\<Sum>i<n. c ! i * (\<Sum>j<n. a ! j * b ! ((i + n - j) mod n)))"
    by (simp add: sum_distrib_left mult_ac)
  also have "\<dots> = dot c (cconv a b)"
    using la lc by (simp add: dot_sum cconv_def Let_def)
  finally show ?thesis .
qed

lemma normalize_scale: "\<exists>t>0. normalize v = map ((*) t) v"
proof (cases "floor_eps < linalg_norm v")
  case True
  then have "0 < linalg_norm v" by (simp add: floor_eps_def)
  then have "0 < 1 / linalg_norm v" by simp
  moreover have "normalize v = map ((*) (1 / linalg_norm v)) v"
    using True by (simp add: normalize_def)
  ultimately show ?thesis by blast
next
  case False
  have "map ((*) (1::real)) v = v" by (induction v) auto
  with False have "normalize v = map ((*) 1) v" by (simp add: normalize_def)
  then show ?thesis by (intro exI [of _ 1]) simp
qed

lemma ccorr_scale: "ccorr (map ((*) t) c) b = map ((*) t) (ccorr c b)"
proof (cases "c = []")
  case True
  then show ?thesis by (simp add: ccorr_def)
next
  case False
  then have pos: "0 < length c" by simp
  show ?thesis
    using pos by (simp add: ccorr_def Let_def sum_distrib_left mult_ac)
qed

lemma dot_scale: "dot (map ((*) t) u) a = t * dot u a"
proof (induction u arbitrary: a)
  case Nil
  then show ?case by (simp add: dot_def)
next
  case (Cons x u)
  show ?case
  proof (cases a)
    case Nil
    then show ?thesis by (simp add: dot_def)
  next
    case (Cons y a')
    with Cons.IH [of a'] show ?thesis by (simp add: dot_def distrib_left mult_ac)
  qed
qed

lemma length_normalize [simp]: "length (normalize v) = length v"
  by (simp add: normalize_def Let_def)

subsection \<open>Two unit vectors of dimension 50\<close>

lemma two_point_sum:
  fixes h :: "nat \<Rightarrow> real"
  assumes "p < n" and "q < n" and "p \<noteq> q"
  shows "(\<Sum>m<n. (if m = p then x else if m = q then y else 0) * h m) = x * h p + y * h q"
proof -
  have "(\<Sum>m<n. (if m = p then x else if m = q then y else 0) * h m)
          = (\<Sum>m<n. (if m = p then x * h p else 0) + (if m = q then y * h q else 0))"
    using assms(3) by (intro sum.cong refl) auto
  also have "\<dots> = x * h p + y * h q"
    using assms(1,2) by (simp add: sum.distrib)
  finally show ?thesis .
qed

lemma shift_half:
  fixes j :: nat
  assumes "j < 50"
  shows "(j + 50 - 0) mod 50 = j"
    and "(j + 50 - 25) mod 50 = (if j < 25 then j + 25 else j - 25)"
    and "(j + 0) mod 50 = j"
    and "(j + 25) mod 50 = (if j < 25 then j + 25 else j - 25)"
  using assms by (simp_all add: mod_if)


lemma cconv_map:
  "cconv (map f [0..<n]) (map g [0..<n])
     = map (\<lambda>j. \<Sum>m<n. f m * g ((j + n - m) mod n)) [0..<n]"
proof (cases "n = 0")
  case True
  then show ?thesis by (simp add: cconv_def)
next
  case False
  then show ?thesis by (simp add: cconv_def Let_def)
qed

lemma ccorr_map:
  "ccorr (map f [0..<n]) (map g [0..<n])
     = map (\<lambda>j. \<Sum>l<n. f ((j + l) mod n) * g l) [0..<n]"
proof (cases "n = 0")
  case True
  then show ?thesis by (simp add: ccorr_def)
next
  case False
  then show ?thesis by (simp add: ccorr_def Let_def)
qed

lemma dot_map: "dot (map f [0..<n]) (map g [0..<n]) = (\<Sum>i<n. f i * g i)"
  by (simp add: dot_sum)

lemma cconv_point:
  fixes j :: nat and gb :: "nat \<Rightarrow> real"
  assumes j: "j < 50"
    and gb: "gb = (\<lambda>i. if i = 0 then 4 / 5 else if i = 25 then 3 / 5 else 0)"
  shows "(\<Sum>m<50. (if m = 0 then 3 / 5 else if m = 25 then - (4 / 5) else 0)
                       * gb ((j + 50 - m) mod 50))
           = (if j = 25 then - (7 / 25) else 0)"
proof -
  have s: "(\<Sum>m<50. (if m = 0 then 3 / 5 else if m = 25 then - (4 / 5) else 0)
                       * gb ((j + 50 - m) mod 50))
            = 3 / 5 * gb ((j + 50 - 0) mod 50) + - (4 / 5) * gb ((j + 50 - 25) mod 50)"
    by (rule two_point_sum) simp_all
  have v: "3 / 5 * gb ((j + 50 - 0) mod 50) + - (4 / 5) * gb ((j + 50 - 25) mod 50)
             = (if j = 25 then - (7 / 25) else 0)"
    unfolding shift_half [OF j] gb using j by auto
  show ?thesis unfolding s v ..
qed


lemma in_upt_50: "j \<in> set [0..<50] \<Longrightarrow> j < 50"
  unfolding set_upt atLeastLessThan_iff by (rule conjunct2)

lemma cconv_a50_b50:
  "cconv a50 b50 = map (\<lambda>j. if j = 25 then - (7 / 25) else 0) [0..<50]"
proof -
  have "cconv a50 b50
          = map (\<lambda>j. \<Sum>m<50. (if m = 0 then 3 / 5 else if m = 25 then - (4 / 5) else 0)
                   * (\<lambda>i. if i = 0 then 4 / 5 else if i = 25 then 3 / 5 else 0)
                       ((j + 50 - m) mod 50)) [0..<50]"
    unfolding a50_def b50_def by (rule cconv_map)
  also have "\<dots> = map (\<lambda>j. if j = 25 then - (7 / 25) else 0) [0..<50]"
  proof (rule map_cong [OF refl])
    fix j :: nat assume "j \<in> set [0..<50]"
    then have "j < 50" by (rule in_upt_50)
    then show "(\<Sum>m<50. (if m = 0 then 3 / 5 else if m = 25 then - (4 / 5) else 0)
                   * (\<lambda>i. if i = 0 then 4 / 5 else if i = 25 then 3 / 5 else 0)
                       ((j + 50 - m) mod 50))
                = (if j = 25 then - (7 / 25) else (0::real))"
      by (rule cconv_point) (rule refl)
  qed
  finally show ?thesis .
qed

lemma dot_two_point:
  fixes h :: "nat \<Rightarrow> real"
  assumes "p < n" and "q < n" and "p \<noteq> q"
  shows "dot (map (\<lambda>i. if i = p then x else if i = q then y else 0) [0..<n]) (map h [0..<n])
           = x * h p + y * h q"
  unfolding dot_map using assms by (rule two_point_sum)

lemma dot_a50: "dot a50 a50 = 1"
  unfolding a50_def by (subst dot_two_point) simp_all

lemma dot_b50: "dot b50 b50 = 1"
  unfolding b50_def by (subst dot_two_point) simp_all

lemma dot_r50: "dot r50 r50 = 1"
  unfolding r50_def by (subst dot_two_point) simp_all

lemma dot_r50_a50: "dot r50 a50 = 7 / 25"
  unfolding r50_def a50_def by (subst dot_two_point) simp_all

lemma one_point_as_two:
  "(\<lambda>i::nat. if i = 25 then x else (0::real)) = (\<lambda>i. if i = 25 then x else if i = 0 then 0 else 0)"
  by auto

lemma dot_raw50:
  "dot (map (\<lambda>j. if j = 25 then - (7 / 25) else 0) [0..<50])
       (map (\<lambda>j. if j = 25 then - (7 / 25) else 0) [0..<50]) = (7 / 25)\<^sup>2"
  by (subst (1) one_point_as_two, subst dot_two_point) (simp_all add: power2_eq_square)

lemma norm_raw50:
  "linalg_norm (map (\<lambda>j. if j = 25 then - (7 / 25) else 0) [0..<50]) = 7 / 25"
  unfolding linalg_norm_def dot_raw50 by (simp only: real_sqrt_abs)

lemma normalize_raw50:
  "normalize (map (\<lambda>j. if j = 25 then - (7 / 25) else 0) [0..<50]) = c50"
proof -
  have big: "floor_eps < 7 / 25" by (simp add: floor_eps_def)
  have "normalize (map (\<lambda>j. if j = 25 then - (7 / 25) else 0) [0..<50])
          = map (\<lambda>x. x / (7 / 25)) (map (\<lambda>j. if j = 25 then - (7 / 25) else 0) [0..<50])"
    unfolding normalize_def Let_def norm_raw50 using big by (simp only: if_True)
  also have "\<dots> = map (\<lambda>j. (if j = 25 then - (7 / 25) else 0) / (7 / 25)) [0..<50]"
    by (simp only: map_map comp_def)
  also have "\<dots> = c50"
    unfolding c50_def by (rule map_cong [OF refl]) simp
  finally show ?thesis .
qed


lemma two_point_sum_right:
  fixes h :: "nat \<Rightarrow> real"
  assumes "p < n" and "q < n" and "p \<noteq> q"
  shows "(\<Sum>m<n. h m * (if m = p then x else if m = q then y else 0)) = x * h p + y * h q"
proof -
  have "(\<Sum>m<n. h m * (if m = p then x else if m = q then y else 0))
          = (\<Sum>m<n. (if m = p then x else if m = q then y else 0) * h m)"
    by (intro sum.cong refl) (rule mult.commute)
  then show ?thesis using two_point_sum [OF assms] by simp
qed

lemma ccorr_point:
  fixes j :: nat and fc :: "nat \<Rightarrow> real"
  assumes j: "j < 50" and fc: "fc = (\<lambda>i. if i = 25 then - 1 else 0)"
  shows "(\<Sum>l<50. fc ((j + l) mod 50) * (if l = 0 then 4 / 5 else if l = 25 then 3 / 5 else 0))
           = (if j = 0 then - (3 / 5) else if j = 25 then - (4 / 5) else 0)"
proof -
  have s: "(\<Sum>l<50. fc ((j + l) mod 50) * (if l = 0 then 4 / 5 else if l = 25 then 3 / 5 else 0))
            = 4 / 5 * fc ((j + 0) mod 50) + 3 / 5 * fc ((j + 25) mod 50)"
    by (rule two_point_sum_right) simp_all
  have v: "4 / 5 * fc ((j + 0) mod 50) + 3 / 5 * fc ((j + 25) mod 50)
             = (if j = 0 then - (3 / 5) else if j = 25 then - (4 / 5) else 0)"
    unfolding shift_half [OF j] fc using j by auto
  show ?thesis unfolding s v ..
qed

lemma ccorr_c50_b50: "ccorr c50 b50 = r50"
proof -
  have "ccorr c50 b50
          = map (\<lambda>j. \<Sum>l<50. (\<lambda>i. if i = 25 then - 1 else 0) ((j + l) mod 50)
                   * (if l = 0 then 4 / 5 else if l = 25 then 3 / 5 else 0)) [0..<50]"
    unfolding c50_def b50_def by (rule ccorr_map)
  also have "\<dots> = r50"
    unfolding r50_def
  proof (rule map_cong [OF refl])
    fix j :: nat assume "j \<in> set [0..<50]"
    then have "j < 50" by (rule in_upt_50)
    then show "(\<Sum>l<50. (\<lambda>i. if i = 25 then - 1 else 0) ((j + l) mod 50)
                   * (if l = 0 then 4 / 5 else if l = 25 then 3 / 5 else 0))
                = (if j = 0 then - (3 / 5) else if j = 25 then - (4 / 5) else (0::real))"
      by (rule ccorr_point) (rule refl)
  qed
  finally show ?thesis .
qed

lemma normalize_r50: "normalize r50 = r50"
proof -
  have n: "linalg_norm r50 = 1" by (simp add: linalg_norm_def dot_r50)
  have "normalize r50 = map (\<lambda>x. x / 1) r50"
    unfolding normalize_def Let_def n by (simp add: floor_eps_def)
  also have "\<dots> = r50" by (simp only: div_by_1 map_ident)
  finally show ?thesis .
qed

lemma length_50:
  "length a50 = 50" "length b50 = 50" "length c50 = 50" "length r50 = 50"
  by (simp_all only: a50_def b50_def c50_def r50_def length_map length_upt)

text \<open>
  Claim C3, as stated, fails. The vectors \<open>a50\<close> and \<open>b50\<close> are unit vectors of
  dimension 50. Binding them gives \<open>c50\<close>, unbinding \<open>c50\<close> with \<open>b50\<close> gives \<open>r50\<close>, and
  the similarity of \<open>r50\<close> with \<open>a50\<close> is \<open>7/25 = 0.28\<close>, which is not above \<open>0.6\<close>.
\<close>

theorem unbind_bind_similarity_counterexample:
  "linalg_norm a50 = 1 \<and> linalg_norm b50 = 1 \<and> length a50 = 50 \<and> length b50 = 50
   \<and> circular_convolution a50 b50 = Inr c50
   \<and> circular_correlation c50 b50 = Inr r50
   \<and> cosine_similarity r50 a50 = Inr (7 / 25)
   \<and> \<not> (7 / 25 > (6 / 10 :: real))"
proof -
  have ne: "a50 \<noteq> []" "b50 \<noteq> []" "c50 \<noteq> []"
    using length_50 by auto
  have conv: "circular_convolution a50 b50 = Inr c50"
    using ne by (simp add: circular_convolution_cconv length_50 cconv_a50_b50 normalize_raw50)
  have corr: "circular_correlation c50 b50 = Inr r50"
    using ne by (simp add: circular_correlation_ccorr length_50 ccorr_c50_b50 normalize_r50)
  have sim: "cosine_similarity r50 a50 = Inr (7 / 25)"
    by (simp add: cosine_similarity_def length_50 dot_r50_a50)
  show ?thesis
    using conv corr sim by (simp add: linalg_norm_def dot_a50 dot_b50 length_50)
qed

text \<open>
  Claim C3, amended. For all vectors \<open>a\<close> and \<open>b\<close> of one dimension \<open>D \<ge> 1\<close>, so for all
  unit vectors of dimension \<open>D \<ge> 50\<close>, binding, unbinding and the similarity succeed, and
  over the exact reals the similarity of \<open>unbind (bind a b) b\<close> with \<open>a\<close> is at least \<open>0\<close>.
\<close>

theorem unbind_bind_similarity_nonneg:
  assumes len: "length a = length b" and ne: "a \<noteq> []"
  shows "\<exists>c r s. circular_convolution a b = Inr c \<and> circular_correlation c b = Inr r
           \<and> cosine_similarity r a = Inr s \<and> 0 \<le> s"
proof -
  define c where "c = normalize (cconv a b)"
  define r where "r = normalize (ccorr c b)"
  have lc: "length c = length a" by (simp add: c_def)
  have lr: "length r = length a" by (simp add: r_def lc)
  have nb: "b \<noteq> []" using len ne by auto
  have conv: "circular_convolution a b = Inr c"
    using len ne nb by (simp add: circular_convolution_cconv c_def)
  have corr: "circular_correlation c b = Inr r"
    using len ne nb lc by (simp add: circular_correlation_ccorr r_def)
  have sim: "cosine_similarity r a = Inr (dot r a)"
    using lr by (simp add: cosine_similarity_def)
  obtain t1 where t1: "0 < t1" "c = map ((*) t1) (cconv a b)"
    using normalize_scale [of "cconv a b"] unfolding c_def by blast
  obtain t2 where t2: "0 < t2" "r = map ((*) t2) (ccorr c b)"
    using normalize_scale [of "ccorr c b"] unfolding r_def by blast
  have "dot r a = t2 * dot (ccorr c b) a"
    by (simp only: t2(2) dot_scale)
  also have "ccorr c b = map ((*) t1) (ccorr (cconv a b) b)"
    by (simp only: t1(2) ccorr_scale)
  also have "dot (map ((*) t1) (ccorr (cconv a b) b)) a = t1 * dot (ccorr (cconv a b) b) a"
    by (rule dot_scale)
  also have "dot (ccorr (cconv a b) b) a = dot (cconv a b) (cconv a b)"
    by (rule ccorr_adjoint [where n = "length a"]) (simp_all add: len)
  finally have "dot r a = t2 * (t1 * dot (cconv a b) (cconv a b))" .
  then have "0 \<le> dot r a"
    using t1(1) t2(1) dot_self_nonneg [of "cconv a b"] by simp
  with conv corr sim show ?thesis by blast
qed

theorem unbind_bind_similarity_nonneg_witness:
  "length a50 = length b50 \<and> a50 \<noteq> []
   \<and> (\<exists>c r s. circular_convolution a50 b50 = Inr c \<and> circular_correlation c b50 = Inr r
           \<and> cosine_similarity r a50 = Inr s \<and> 0 \<le> s)"
proof -
  have len: "length a50 = length b50" by (simp only: length_50)
  have ne: "a50 \<noteq> []" using length_50(1) by auto
  from unbind_bind_similarity_nonneg [OF len ne] len ne show ?thesis by (intro conjI)
qed

end
